theory Spec2Isabelle
  imports Main "HOL-Library.Word" "HOL-Library.Sublist"
begin

section \<open>Event types and the table of payload names\<close>

text \<open>
  \<^verbatim>\<open>type EventType int32\<close>: a 32-bit two's complement integer, read with \<open>sint\<close>.
  The enumeration (\<^verbatim>\<open>iota\<close>) assigns 0 to 5 to the six event types; \<open>eventmax\<close>
  is the private constant that follows them.
\<close>

type_synonym EventType = "32 word"

definition I3WorkspaceEvent :: EventType where "I3WorkspaceEvent = 0"
definition I3OutputEvent :: EventType where "I3OutputEvent = 1"
definition I3ModeEvent :: EventType where "I3ModeEvent = 2"
definition I3WindowEvent :: EventType where "I3WindowEvent = 3"
definition I3BarConfigUpdateEvent :: EventType where "I3BarConfigUpdateEvent = 4"
definition I3BindingEvent :: EventType where "I3BindingEvent = 5"
definition eventmax :: EventType where "eventmax = 6"

text \<open>The initial value of the package variable \<^verbatim>\<open>payloads\<close>.\<close>

definition payloads_init :: "string list" where
  "payloads_init =
     [''workspace'', ''output'', ''mode'', ''window'', ''barconfig_update'', ''binding'']"

section \<open>Errors and the ways a call can end\<close>

text \<open>
  \<open>SubscribeError\<close> is the error type of the file. \<open>SyntaxError\<close> and
  \<open>UnmarshalTypeError\<close> are the two errors \<^verbatim>\<open>json.Unmarshal\<close> reports here, and
  \<open>TransportError\<close> stands for an error of the socket layer (\<^verbatim>\<open>GetIPCSocket\<close>,
  \<^verbatim>\<open>Raw\<close>, \<^verbatim>\<open>recv\<close>), with its message: that layer has error values of its own and
  makes no \<open>SubscribeError\<close>.
\<close>

datatype error =
    SubscribeError string
  | SyntaxError
  | UnmarshalTypeError
  | TransportError string

text \<open>
  A call that does not return normally either ends the process (\<^verbatim>\<open>log.Fatal\<close>,
  \<^verbatim>\<open>log.Fatalf\<close>: the message is written and the process exits with status 1) or panics
  (an index expression out of range, a send on a closed channel). The constructors of \<open>fatal\<close> name the four
  call sites of \<^verbatim>\<open>log.Fatal\<close> and \<^verbatim>\<open>log.Fatalf\<close> that can be reached.
\<close>

datatype fatal =
    DecodeFailed error
  | PayloadsMismatch nat int
  | CantGetSocket error
  | CantSubscribe error

datatype abort = Fatal fatal | IndexOutOfRange | SendOnClosedChannel

section \<open>JSON values and decoding into the structs of the file\<close>

text \<open>
  The bytes handed to \<^verbatim>\<open>json.Unmarshal\<close> are represented by what its scanner makes of
  them: \<open>None\<close> when the bytes are not one well-formed JSON text (the call reports a
  syntax error before it stores anything), \<open>Some v\<close> when they are the text of the
  value \<open>v\<close>. A number keeps its literal; the members of an object keep their order.
\<close>

datatype json =
    JNull
  | JBool bool
  | JNumber string
  | JString string
  | JArray "json list"
  | JObject "(string \<times> json) list"

type_synonym bytes = "json option"

record BaseEvent =
  Change :: string

record 'n WorkspaceEvent =
  Change :: string
  Current :: 'n
  Old :: 'n

record ModeEvent =
  Change :: string
  PangoMarkup :: bool

record 'n WindowEvent =
  Change :: string
  Container :: 'n

record Binding =
  Command :: string
  EventStateMask :: "string list"
  InputCode :: int
  Symbol :: string
  InputType :: string

record BindingEvent =
  Change :: string
  Binding :: Binding

record subscribeReply =
  Success :: bool

text \<open>
  \<^verbatim>\<open>Details interface{}\<close> holds nothing in a fresh Event and afterwards a value of
  one of the five event structs.
\<close>

datatype 'n Details =
    NoDetails
  | OfWorkspaceEvent "'n WorkspaceEvent"
  | OfModeEvent ModeEvent
  | OfWindowEvent "'n WindowEvent"
  | OfBindingEvent BindingEvent
  | OfBaseEvent BaseEvent

record 'n Event =
  Type :: EventType
  Details :: "'n Details"
  Change :: string

text \<open>
  \<^verbatim>\<open>I3Node\<close> is declared in another file of the package, so the node type is the
  parameter \<open>'n\<close>, and what \<^verbatim>\<open>json.Unmarshal\<close> does with a member whose field is
  an \<^verbatim>\<open>I3Node\<close> is a parameter too, next to the zero value of the type. The same holds
  for a member stored into the \<^verbatim>\<open>Binding\<close> field, whose integer and slice fields are
  decoded by the library.
\<close>

record 'n nested =
  I3Node_zero :: 'n
  I3Node_value :: "json \<Rightarrow> 'n \<Rightarrow> 'n \<times> error option"
  Binding_value :: "json \<Rightarrow> Binding \<Rightarrow> Binding \<times> error option"

text \<open>
  A key of a JSON object selects the struct field whose name equals it when letter case
  is ignored. All field names here are ASCII letters; the fold partners of such a
  letter are its other case and, for k and s, the Kelvin sign (E2 84 AA in UTF-8) and
  the long s (C5 BF).
\<close>

definition letter_fold :: "char \<Rightarrow> char \<Rightarrow> bool" where
  "letter_fold b c =
     (let x = (of_char b :: nat); y = (of_char c :: nat)
      in x = y \<or>
         (65 \<le> x \<and> x \<le> 90 \<and> y = x + 32) \<or>
         (97 \<le> x \<and> x \<le> 122 \<and> x = y + 32))"

definition match_rune :: "char \<Rightarrow> string \<Rightarrow> string option" where
  "match_rune b t =
     (case t of
        [] \<Rightarrow> None
      | c # t' \<Rightarrow>
          if letter_fold b c then Some t'
          else if letter_fold b CHR ''k'' \<and> take 3 t = [CHR 0xE2, CHR 0x84, CHR 0xAA]
            then Some (drop 3 t)
          else if letter_fold b CHR ''s'' \<and> take 2 t = [CHR 0xC5, CHR 0xBF]
            then Some (drop 2 t)
          else None)"

fun equalFold :: "string \<Rightarrow> string \<Rightarrow> bool" where
  "equalFold [] t = (t = [])"
| "equalFold (b # s) t =
     (case match_rune b t of None \<Rightarrow> False | Some t' \<Rightarrow> equalFold s t')"

text \<open>
  Storing a JSON value into a string or a bool field: a value of the field's kind is
  stored, \<^verbatim>\<open>null\<close> leaves the field as it is, anything else leaves it as it is and
  reports a type error.
\<close>

definition store_string :: "json \<Rightarrow> string \<Rightarrow> string \<times> error option" where
  "store_string v old =
     (case v of
        JString s \<Rightarrow> (s, None)
      | JNull \<Rightarrow> (old, None)
      | _ \<Rightarrow> (old, Some UnmarshalTypeError))"

definition store_bool :: "json \<Rightarrow> bool \<Rightarrow> bool \<times> error option" where
  "store_bool v old =
     (case v of
        JBool b \<Rightarrow> (b, None)
      | JNull \<Rightarrow> (old, None)
      | _ \<Rightarrow> (old, Some UnmarshalTypeError))"

text \<open>
  Decoding an object into a struct walks the members in order, stores each member whose
  key selects a field, skips the others, and keeps the first error while it goes on.
\<close>

fun object :: "(string \<Rightarrow> json \<Rightarrow> 'a \<Rightarrow> 'a \<times> error option) \<Rightarrow>
    (string \<times> json) list \<Rightarrow> 'a \<Rightarrow> error option \<Rightarrow> 'a \<times> error option" where
  "object member [] d saved = (d, saved)"
| "object member ((k, v) # kvs) d saved =
     (case member k v d of
        (d', e) \<Rightarrow> object member kvs d' (if saved = None then e else saved))"

definition json_Unmarshal :: "(string \<Rightarrow> json \<Rightarrow> 'a \<Rightarrow> 'a \<times> error option) \<Rightarrow>
    bytes \<Rightarrow> 'a \<Rightarrow> 'a \<times> error option" where
  "json_Unmarshal member raw d =
     (case raw of
        None \<Rightarrow> (d, Some SyntaxError)
      | Some JNull \<Rightarrow> (d, None)
      | Some (JObject kvs) \<Rightarrow> object member kvs d None
      | Some _ \<Rightarrow> (d, Some UnmarshalTypeError))"

definition BaseEvent_member :: "string \<Rightarrow> json \<Rightarrow> BaseEvent \<Rightarrow> BaseEvent \<times> error option" where
  "BaseEvent_member k v d =
     (if equalFold ''Change'' k
      then (case store_string v (BaseEvent.Change d) of
              (s, e) \<Rightarrow> (d\<lparr>BaseEvent.Change := s\<rparr>, e))
      else (d, None))"

definition WorkspaceEvent_member :: "'n nested \<Rightarrow> string \<Rightarrow> json \<Rightarrow>
    'n WorkspaceEvent \<Rightarrow> 'n WorkspaceEvent \<times> error option" where
  "WorkspaceEvent_member N k v d =
     (if equalFold ''Change'' k
      then (case store_string v (WorkspaceEvent.Change d) of
              (s, e) \<Rightarrow> (d\<lparr>WorkspaceEvent.Change := s\<rparr>, e))
      else if equalFold ''Current'' k
      then (case I3Node_value N v (Current d) of (n, e) \<Rightarrow> (d\<lparr>Current := n\<rparr>, e))
      else if equalFold ''Old'' k
      then (case I3Node_value N v (Old d) of (n, e) \<Rightarrow> (d\<lparr>Old := n\<rparr>, e))
      else (d, None))"

definition ModeEvent_member :: "string \<Rightarrow> json \<Rightarrow> ModeEvent \<Rightarrow> ModeEvent \<times> error option" where
  "ModeEvent_member k v d =
     (if equalFold ''Change'' k
      then (case store_string v (ModeEvent.Change d) of
              (s, e) \<Rightarrow> (d\<lparr>ModeEvent.Change := s\<rparr>, e))
      else if equalFold ''PangoMarkup'' k
      then (case store_bool v (PangoMarkup d) of (b, e) \<Rightarrow> (d\<lparr>PangoMarkup := b\<rparr>, e))
      else (d, None))"

definition WindowEvent_member :: "'n nested \<Rightarrow> string \<Rightarrow> json \<Rightarrow>
    'n WindowEvent \<Rightarrow> 'n WindowEvent \<times> error option" where
  "WindowEvent_member N k v d =
     (if equalFold ''Change'' k
      then (case store_string v (WindowEvent.Change d) of
              (s, e) \<Rightarrow> (d\<lparr>WindowEvent.Change := s\<rparr>, e))
      else if equalFold ''Container'' k
      then (case I3Node_value N v (Container d) of (n, e) \<Rightarrow> (d\<lparr>Container := n\<rparr>, e))
      else (d, None))"

definition BindingEvent_member :: "'n nested \<Rightarrow> string \<Rightarrow> json \<Rightarrow>
    BindingEvent \<Rightarrow> BindingEvent \<times> error option" where
  "BindingEvent_member N k v d =
     (if equalFold ''Change'' k
      then (case store_string v (BindingEvent.Change d) of
              (s, e) \<Rightarrow> (d\<lparr>BindingEvent.Change := s\<rparr>, e))
      else if equalFold ''Binding'' k
      then (case Binding_value N v (BindingEvent.Binding d) of
              (b, e) \<Rightarrow> (d\<lparr>BindingEvent.Binding := b\<rparr>, e))
      else (d, None))"

definition subscribeReply_member :: "string \<Rightarrow> json \<Rightarrow> subscribeReply \<Rightarrow>
    subscribeReply \<times> error option" where
  "subscribeReply_member k v d =
     (if equalFold ''Success'' k
      then (case store_bool v (Success d) of (b, e) \<Rightarrow> (d\<lparr>Success := b\<rparr>, e))
      else (d, None))"

text \<open>The zero values that \<^verbatim>\<open>var d T\<close> declares.\<close>

definition BaseEvent_zero :: BaseEvent where
  "BaseEvent_zero = \<lparr>BaseEvent.Change = ''''\<rparr>"

definition WorkspaceEvent_zero :: "'n nested \<Rightarrow> 'n WorkspaceEvent" where
  "WorkspaceEvent_zero N =
     \<lparr>WorkspaceEvent.Change = '''', Current = I3Node_zero N, Old = I3Node_zero N\<rparr>"

definition ModeEvent_zero :: ModeEvent where
  "ModeEvent_zero = \<lparr>ModeEvent.Change = '''', PangoMarkup = False\<rparr>"

definition WindowEvent_zero :: "'n nested \<Rightarrow> 'n WindowEvent" where
  "WindowEvent_zero N = \<lparr>WindowEvent.Change = '''', Container = I3Node_zero N\<rparr>"

definition Binding_zero :: Binding where
  "Binding_zero =
     \<lparr>Command = '''', EventStateMask = [], InputCode = 0, Symbol = '''', InputType = ''''\<rparr>"

definition BindingEvent_zero :: BindingEvent where
  "BindingEvent_zero = \<lparr>BindingEvent.Change = '''', Binding = Binding_zero\<rparr>"

definition subscribeReply_zero :: subscribeReply where
  "subscribeReply_zero = \<lparr>Success = False\<rparr>"

definition Event_zero :: "'n Event" where
  "Event_zero = \<lparr>Type = 0, Details = NoDetails, Change = ''''\<rparr>"

section \<open>addDetails\<close>

text \<open>
  The switch decodes into the struct of the event type, stores the struct in
  \<open>Details\<close> and remembers its \<open>Change\<close>; the check after the switch ends the
  process when the decoding reported an error, whichever branch ran. Otherwise the
  deprecated field \<open>Change\<close> of the event is set and the call returns.
\<close>

definition decode_Details :: "'n nested \<Rightarrow> EventType \<Rightarrow> bytes \<Rightarrow>
    'n Details \<times> string \<times> error option" where
  "decode_Details N t raw =
     (if t = I3WorkspaceEvent then
        (case json_Unmarshal (WorkspaceEvent_member N) raw (WorkspaceEvent_zero N) of
           (d, err) \<Rightarrow> (OfWorkspaceEvent d, WorkspaceEvent.Change d, err))
      else if t = I3ModeEvent then
        (case json_Unmarshal ModeEvent_member raw ModeEvent_zero of
           (d, err) \<Rightarrow> (OfModeEvent d, ModeEvent.Change d, err))
      else if t = I3WindowEvent then
        (case json_Unmarshal (WindowEvent_member N) raw (WindowEvent_zero N) of
           (d, err) \<Rightarrow> (OfWindowEvent d, WindowEvent.Change d, err))
      else if t = I3BindingEvent then
        (case json_Unmarshal (BindingEvent_member N) raw BindingEvent_zero of
           (d, err) \<Rightarrow> (OfBindingEvent d, BindingEvent.Change d, err))
      else
        (case json_Unmarshal BaseEvent_member raw BaseEvent_zero of
           (d, err) \<Rightarrow> (OfBaseEvent d, BaseEvent.Change d, err)))"

definition addDetails :: "'n nested \<Rightarrow> 'n Event \<Rightarrow> bytes \<Rightarrow> abort + 'n Event" where
  "addDetails N e raw =
     (case decode_Details N (Type e) raw of
        (details, change, err) \<Rightarrow>
          (case err of
             Some x \<Rightarrow> Inl (Fatal (DecodeFailed x))
           | None \<Rightarrow> Inr (e\<lparr>Details := details, Event.Change := change\<rparr>)))"

section \<open>Sockets, messages and channels\<close>

text \<open>
  Modelled from the spec: the socket type, \<^verbatim>\<open>GetIPCSocket\<close>, \<^verbatim>\<open>Raw\<close>, \<^verbatim>\<open>recv\<close> and the
  message type are declared in another file of the package. The spec gives the
  interface: \<open>connect()\<close>; \<open>send(commandKind, bodyBytes) -> replyBytes\<close>;
  \<open>receive() -> (isEvent, categoryId, payloadBytes, err)\<close>; an open flag; and a
  subscriber set that exists and is empty when the socket is created. A socket is a
  record of the two fields this file reads and writes and of the requests handed to
  \<^verbatim>\<open>Raw\<close>; what the transport answers (a failure with its message, or the bytes) is an
  input of each operation.
\<close>

datatype MessageType = I3Subscribe

record IPCSocket =
  "open" :: bool
  subscribers :: "nat list"
  requests :: "(MessageType \<times> string) list"

record Message =
  Payload :: bytes
  IsEvent :: bool
  Type :: EventType

definition GetIPCSocket :: "string option \<Rightarrow> error + IPCSocket" where
  "GetIPCSocket dial =
     (case dial of
        Some m \<Rightarrow> Inl (TransportError m)
      | None \<Rightarrow> Inr \<lparr>open = True, subscribers = [], requests = []\<rparr>)"

definition Raw :: "string + bytes \<Rightarrow> MessageType \<Rightarrow> string \<Rightarrow> IPCSocket \<Rightarrow>
    (error + bytes) \<times> IPCSocket" where
  "Raw reply t args socket =
     (case reply of Inl m \<Rightarrow> Inl (TransportError m) | Inr jsonReply \<Rightarrow> Inr jsonReply,
      socket\<lparr>requests := requests socket @ [(t, args)]\<rparr>)"

text \<open>
  A channel of events, as the Go runtime keeps it: its capacity, the events in its
  buffer, the events a receiver has taken over directly from a sender, and whether it
  has been closed. \<^verbatim>\<open>make(chan Event)\<close> makes an open channel of capacity 0. A
  subscriber list holds references (positions in the store of channels), since the
  caller of \<^verbatim>\<open>Subscribe\<close> and the socket share the channel.
\<close>

record 'n chan =
  cap :: nat
  buf :: "'n Event list"
  handed :: "'n Event list"
  closed :: bool

definition make_chan :: "nat \<Rightarrow> 'n chan" where
  "make_chan n = \<lparr>cap = n, buf = [], handed = [], closed = False\<rparr>"

text \<open>
  \<^verbatim>\<open>select { case subscriber <- event: default: }\<close>: a send on a closed channel panics.
  On an open channel the send is chosen when it can proceed at once, which is when a
  receiver is parked on the channel (it takes the event over) or the buffer has room;
  otherwise the default case runs and nothing happens. Whether a receiver is parked is
  the consumer's doing and an input here. The first component of the result says
  whether the send was chosen.
\<close>

definition nb_send :: "bool \<Rightarrow> 'n Event \<Rightarrow> 'n chan \<Rightarrow> abort + bool \<times> 'n chan" where
  "nb_send waiting e ch =
     (if closed ch then Inl SendOnClosedChannel
      else if waiting then Inr (True, ch\<lparr>handed := handed ch @ [e]\<rparr>)
      else if length (buf ch) < cap ch then Inr (True, ch\<lparr>buf := buf ch @ [e]\<rparr>)
      else Inr (False, ch))"

section \<open>The state of the package\<close>

text \<open>
  The package variables \<^verbatim>\<open>payloads\<close> and \<^verbatim>\<open>eventSockets\<close>, the store of channels, and
  the sockets (by position in \<open>eventSockets\<close>) on which \<^verbatim>\<open>go sock.listen()\<close> has
  been started.
\<close>

record 'n world =
  payloads :: "string list"
  eventSockets :: "IPCSocket list"
  chans :: "'n chan list"
  listeners :: "nat list"

definition init :: "'n world" where
  "init = \<lparr>payloads = payloads_init, eventSockets = [], chans = [], listeners = []\<rparr>"

text \<open>An index expression \<^verbatim>\<open>xs[t]\<close> with an index of type EventType: \<open>None\<close> is the panic.\<close>

definition index :: "'a list \<Rightarrow> EventType \<Rightarrow> 'a option" where
  "index xs t =
     (if 0 \<le> sint t \<and> sint t < int (length xs) then Some (xs ! nat (sint t)) else None)"

section \<open>AddEventType, subscribe and Subscribe\<close>

text \<open>\<^verbatim>\<open>EventType(len(payloads) - 1)\<close> converts an \<^verbatim>\<open>int\<close> to \<^verbatim>\<open>int32\<close>, keeping the low 32 bits.\<close>

definition AddEventType :: "string \<Rightarrow> 'n world \<Rightarrow> EventType \<times> 'n world" where
  "AddEventType name w =
     (let w' = w\<lparr>payloads := payloads w @ [name]\<rparr>
      in (word_of_int (int (length (payloads w')) - 1), w'))"

definition subscribe :: "string + bytes \<Rightarrow> string list \<Rightarrow> EventType \<Rightarrow> IPCSocket \<Rightarrow>
    abort + error option \<times> IPCSocket" where
  \<open>subscribe reply ps eventType socket =
     (case index ps eventType of
        None \<Rightarrow> Inl IndexOutOfRange
      | Some name \<Rightarrow>
          (case Raw reply I3Subscribe (''["'' @ name @ ''"]'') socket of
             (Inl err, socket') \<Rightarrow> Inr (Some err, socket')
           | (Inr jsonReply, socket') \<Rightarrow>
               (case json_Unmarshal subscribeReply_member jsonReply subscribeReply_zero of
                  (subsReply, Some err) \<Rightarrow> Inr (Some err, socket')
                | (subsReply, None) \<Rightarrow>
                    if \<not> Success subsReply
                    then Inr (Some (SubscribeError ''Could not subscribe.''), socket')
                    else Inr (None, socket'))))\<close>

text \<open>
  \<open>Subscribe\<close> returns the pair \<open>(subs, err)\<close>: \<open>subs\<close> is \<open>None\<close> for the nil
  channel. The channel is made before \<^verbatim>\<open>eventSockets[eventType]\<close> is evaluated, which
  panics when \<open>eventSockets\<close> is too short.
\<close>

definition Subscribe :: "EventType \<Rightarrow> 'n world \<Rightarrow>
    (abort + nat option \<times> error option) \<times> 'n world" where
  "Subscribe eventType w =
     (if sint eventmax \<le> sint eventType \<or> sint eventType < 0
      then (Inr (None, Some (SubscribeError ''No such event type.'')), w)
      else
        (let subs = length (chans w);
             w1 = w\<lparr>chans := chans w @ [make_chan 0]\<rparr>
         in case index (eventSockets w1) eventType of
              None \<Rightarrow> (Inl IndexOutOfRange, w1)
            | Some socket \<Rightarrow>
                (Inr (Some subs, None),
                 w1\<lparr>eventSockets := (eventSockets w1)
                      [nat (sint eventType) :=
                         socket\<lparr>subscribers := subscribers socket @ [subs]\<rparr>]\<rparr>)))"

section \<open>listen\<close>

text \<open>
  The inner loop offers the event to every subscriber in turn. \<open>ready\<close> is the set of
  channels on which a receiver is parked when its turn comes. A panic ends the loop
  where it stands: the first component is the panic, if any, and the second the
  channels as the sends so far have left them. A reference to no channel of the store is
  the nil channel, on which no send can proceed.
\<close>

fun broadcast :: "nat list \<Rightarrow> nat set \<Rightarrow> 'n Event \<Rightarrow> 'n chan list \<Rightarrow>
    abort option \<times> 'n chan list" where
  "broadcast [] ready event cs = (None, cs)"
| "broadcast (subscriber # rest) ready event cs =
     (if length cs \<le> subscriber then broadcast rest ready event cs
      else
        (case nb_send (subscriber \<in> ready) event (cs ! subscriber) of
           Inl a \<Rightarrow> (Some a, cs)
         | Inr (sent, ch) \<Rightarrow> broadcast rest ready event (cs[subscriber := ch])))"

text \<open>
  The outer loop runs until the socket is no longer open; \<^verbatim>\<open>recv\<close> blocks until the
  transport has a message or an error. The function reads the loop on the answers of
  \<^verbatim>\<open>recv\<close> that have arrived so far, each with the set of ready channels at the time
  of its broadcast: \<open>Returned\<close> when the loop has left by \<^verbatim>\<open>break\<close>, \<open>Exited\<close> when
  the process has ended (\<^verbatim>\<open>log.Fatal\<close>, or a panic, which nothing here recovers),
  \<open>InRecv\<close> when every answer has been handled and the loop waits in \<^verbatim>\<open>recv\<close> for the
  next. The socket is the one the loop was started on, with the fields as the loop reads
  them; writes of other goroutines during the run are not interleaved.
\<close>

datatype listen_end = Returned | InRecv | Exited abort

fun listen :: "'n nested \<Rightarrow> IPCSocket \<Rightarrow> ((string + Message) \<times> nat set) list \<Rightarrow>
    'n chan list \<Rightarrow> listen_end \<times> 'n chan list" where
  "listen N socket [] cs = (if \<not> open socket then (Returned, cs) else (InRecv, cs))"
| "listen N socket ((r, ready) # ins) cs =
     (if \<not> open socket then (Returned, cs)
      else
        (case r of
           Inl err \<Rightarrow> listen N socket ins cs
         | Inr msg \<Rightarrow>
             if \<not> IsEvent msg then listen N socket ins cs
             else
               (case addDetails N (Event_zero\<lparr>Event.Type := Message.Type msg\<rparr>) (Payload msg) of
                  Inl a \<Rightarrow> (Exited a, cs)
                | Inr event \<Rightarrow>
                    (case broadcast (subscribers socket) ready event cs of
                       (Some a, cs') \<Rightarrow> (Exited a, cs')
                     | (None, cs') \<Rightarrow> listen N socket ins cs'))))"

section \<open>StartEventListener\<close>

text \<open>
  The transport's part in the loop is an input: for each event type, whether
  \<^verbatim>\<open>GetIPCSocket\<close> fails and what \<^verbatim>\<open>Raw\<close> answers to the subscribe request.
  \<^verbatim>\<open>go sock.listen()\<close> is recorded in \<open>listeners\<close>. The third check of \<open>err\<close> in
  the loop body comes after one that has already ended the process for every error, so
  it has no branch here.
\<close>

lemma sint_succ_below_eventmax:
  "sint (ev :: EventType) < sint eventmax \<Longrightarrow> sint (ev + 1) = sint ev + 1"
proof -
  assume a: "sint ev < sint eventmax"
  have lo: "- (2 ^ 31) \<le> sint ev" using sint_ge [of ev] by simp
  have "sint (ev + 1) = signed_take_bit 31 (sint ev + 1)"
    by (simp add: sint_word_ariths)
  also have "\<dots> = sint ev + 1"
    using a lo by (intro signed_take_bit_int_eq_self) (simp_all add: eventmax_def)
  finally show ?thesis .
qed

function StartEventListener_loop :: "(EventType \<Rightarrow> string option \<times> (string + bytes)) \<Rightarrow>
    EventType \<Rightarrow> 'n world \<Rightarrow> abort option \<times> 'n world" where
  "StartEventListener_loop transport ev w =
     (if sint ev < sint eventmax then
        (case GetIPCSocket (fst (transport ev)) of
           Inl err \<Rightarrow> (Some (Fatal (CantGetSocket err)), w)
         | Inr sock \<Rightarrow>
             (case subscribe (snd (transport ev)) (payloads w) ev sock of
                Inl a \<Rightarrow> (Some a, w)
              | Inr (Some err, sock') \<Rightarrow> (Some (Fatal (CantSubscribe err)), w)
              | Inr (None, sock') \<Rightarrow>
                  StartEventListener_loop transport (ev + 1)
                    (w\<lparr>listeners := listeners w @ [length (eventSockets w)],
                       eventSockets := eventSockets w @ [sock']\<rparr>)))
      else (None, w))"
  by pat_completeness auto
termination
  by (relation "measure (\<lambda>(transport, ev, w). nat (sint eventmax - sint ev))")
    (simp_all add: sint_succ_below_eventmax)

declare StartEventListener_loop.simps [simp del]

definition StartEventListener :: "(EventType \<Rightarrow> string option \<times> (string + bytes)) \<Rightarrow>
    'n world \<Rightarrow> abort option \<times> 'n world" where
  "StartEventListener transport w =
     (if int (length (payloads w)) \<noteq> sint eventmax
      then (Some (Fatal (PayloadsMismatch (length (payloads w)) (sint eventmax))), w)
      else StartEventListener_loop transport 0 w)"

section \<open>Well-formed states and sample inputs\<close>

text \<open>
  What holds of every state the operations produce from \<open>init\<close>: \<^verbatim>\<open>payloads\<close> starts
  with the six built-in names (it is only ever appended to), no channel is subscribed
  twice, every subscribed channel is in the store, and every channel is as \<open>Subscribe\<close>
  made it: capacity 0, an empty buffer, and open (nothing in the package closes a
  channel).
\<close>

definition as_made :: "'n chan list \<Rightarrow> bool" where
  "as_made cs \<longleftrightarrow> (\<forall>ch \<in> set cs. cap ch = 0 \<and> buf ch = [] \<and> \<not> closed ch)"

definition wf :: "'n world \<Rightarrow> bool" where
  "wf w \<longleftrightarrow>
     prefix payloads_init (payloads w) \<and>
     distinct (concat (map subscribers (eventSockets w))) \<and>
     (\<forall>socket \<in> set (eventSockets w). \<forall>c \<in> set (subscribers socket). c < length (chans w)) \<and>
     as_made (chans w)"

text \<open>
  The event a received frame stands for: none for a receive error, for a message that
  is not an event, and for an event whose decoding ends the process.
\<close>

definition decoded :: "'n nested \<Rightarrow> string + Message \<Rightarrow> 'n Event option" where
  "decoded N r =
     (case r of
        Inl err \<Rightarrow> None
      | Inr msg \<Rightarrow>
          if \<not> IsEvent msg then None
          else
            (case addDetails N (Event_zero\<lparr>Event.Type := Message.Type msg\<rparr>) (Payload msg) of
               Inl a \<Rightarrow> None
             | Inr event \<Rightarrow> Some event))"

text \<open>A frame the loop drops: a receive error, or a message that is not an event.\<close>

definition discarded :: "string + Message \<Rightarrow> bool" where
  "discarded r = (case r of Inl err \<Rightarrow> True | Inr msg \<Rightarrow> \<not> IsEvent msg)"

text \<open>
  Inputs for concrete runs. In \<open>plain_nested\<close> a node is the JSON object it was sent
  as, and a binding keeps its command. \<open>ok_transport\<close> connects and answers every
  subscribe request with \<^verbatim>\<open>{"success":true}\<close>; \<open>started\<close> is the state after a startup
  on it.
\<close>

definition plain_nested :: "json nested" where
  "plain_nested =
     \<lparr>I3Node_zero = JObject [],
      I3Node_value = (\<lambda>v old.
        case v of
          JObject kvs \<Rightarrow> (v, None)
        | JNull \<Rightarrow> (old, None)
        | _ \<Rightarrow> (old, Some UnmarshalTypeError)),
      Binding_value = (\<lambda>v old.
        case v of
          JObject kvs \<Rightarrow>
            object (\<lambda>k x d.
              if equalFold ''Command'' k
              then (case store_string x (Command d) of (s, e) \<Rightarrow> (d\<lparr>Command := s\<rparr>, e))
              else (d, None)) kvs old None
        | JNull \<Rightarrow> (old, None)
        | _ \<Rightarrow> (old, Some UnmarshalTypeError))\<rparr>"

definition ok_transport :: "EventType \<Rightarrow> string option \<times> (string + bytes)" where
  "ok_transport ev = (None, Inr (Some (JObject [(''success'', JBool True)])))"

definition started :: "json world" where
  "started = snd (StartEventListener ok_transport init)"

section \<open>Facts about broadcast and listen\<close>

lemma as_madeD:
  "as_made cs \<Longrightarrow> c < length cs \<Longrightarrow> cap (cs ! c) = 0 \<and> buf (cs ! c) = [] \<and> \<not> closed (cs ! c)"
  unfolding as_made_def using nth_mem by blast

lemma as_made_update:
  assumes "as_made cs" and "cap ch = 0" and "buf ch = []" and "\<not> closed ch"
  shows "as_made (cs[c := ch])"
proof -
  have "set (cs[c := ch]) \<subseteq> insert ch (set cs)"
    by (rule set_update_subset_insert)
  with assms show ?thesis
    unfolding as_made_def by blast
qed

lemma nb_send_as_made:
  "cap ch = 0 \<Longrightarrow> \<not> closed ch \<Longrightarrow>
   nb_send waiting e ch =
     Inr (waiting, if waiting then ch\<lparr>handed := handed ch @ [e]\<rparr> else ch)"
  by (simp add: nb_send_def)

lemma broadcast_step_as_made:
  assumes "as_made cs"
  shows "broadcast (s # subs) ready e cs =
     broadcast subs ready e
       (if s < length cs \<and> s \<in> ready then cs[s := (cs ! s)\<lparr>handed := handed (cs ! s) @ [e]\<rparr>]
        else cs)"
proof (cases "s < length cs")
  case True
  with assms have "cap (cs ! s) = 0" "\<not> closed (cs ! s)"
    using as_madeD by blast+
  then show ?thesis
    using True by (simp add: nb_send_as_made)
next
  case False
  then show ?thesis by simp
qed

lemma as_made_step:
  assumes "as_made cs"
  shows "as_made (if s < length cs \<and> s \<in> ready
                  then cs[s := (cs ! s)\<lparr>handed := handed (cs ! s) @ [e]\<rparr>] else cs)"
proof (cases "s < length cs \<and> s \<in> ready")
  case True
  then have "cap (cs ! s) = 0 \<and> buf (cs ! s) = [] \<and> \<not> closed (cs ! s)"
    using assms as_madeD by blast
  then have "as_made (cs[s := (cs ! s)\<lparr>handed := handed (cs ! s) @ [e]\<rparr>])"
    using assms by (intro as_made_update) simp_all
  with True show ?thesis by simp
next
  case False
  then have "(if s < length cs \<and> s \<in> ready
      then cs[s := (cs ! s)\<lparr>handed := handed (cs ! s) @ [e]\<rparr>] else cs) = cs"
    by (rule if_not_P)
  with assms show ?thesis by simp
qed

lemma broadcast_as_made:
  "as_made cs \<Longrightarrow>
   fst (broadcast subs ready e cs) = None \<and> as_made (snd (broadcast subs ready e cs)) \<and>
   length (snd (broadcast subs ready e cs)) = length cs"
proof (induction subs arbitrary: cs)
  case Nil
  then show ?case by simp
next
  case (Cons s subs)
  let ?cs = "if s < length cs \<and> s \<in> ready
             then cs[s := (cs ! s)\<lparr>handed := handed (cs ! s) @ [e]\<rparr>] else cs"
  have "as_made ?cs" using Cons.prems by (rule as_made_step)
  then have "fst (broadcast subs ready e ?cs) = None \<and>
      as_made (snd (broadcast subs ready e ?cs)) \<and>
      length (snd (broadcast subs ready e ?cs)) = length ?cs"
    by (rule Cons.IH)
  moreover have "length ?cs = length cs" by simp
  ultimately show ?case
    unfolding broadcast_step_as_made [OF Cons.prems] by simp
qed

lemma broadcast_nth_other:
  "as_made cs \<Longrightarrow> c \<notin> set subs \<Longrightarrow> snd (broadcast subs ready e cs) ! c = cs ! c"
proof (induction subs arbitrary: cs)
  case Nil
  then show ?case by simp
next
  case (Cons s subs)
  let ?cs = "if s < length cs \<and> s \<in> ready
             then cs[s := (cs ! s)\<lparr>handed := handed (cs ! s) @ [e]\<rparr>] else cs"
  have a: "as_made ?cs" using Cons.prems(1) by (rule as_made_step)
  have "c \<notin> set subs" and n: "c \<noteq> s" using Cons.prems(2) by simp_all
  with a have "snd (broadcast subs ready e ?cs) ! c = ?cs ! c"
    by (intro Cons.IH)
  also have "?cs ! c = cs ! c" using n by simp
  finally show ?case
    unfolding broadcast_step_as_made [OF Cons.prems(1)] .
qed

lemma broadcast_nth_subscriber:
  "as_made cs \<Longrightarrow> distinct subs \<Longrightarrow> c \<in> set subs \<Longrightarrow> c < length cs \<Longrightarrow>
   snd (broadcast subs ready e cs) ! c =
     (if c \<in> ready then (cs ! c)\<lparr>handed := handed (cs ! c) @ [e]\<rparr> else cs ! c)"
proof (induction subs arbitrary: cs)
  case Nil
  then show ?case by simp
next
  case (Cons s subs)
  let ?cs = "if s < length cs \<and> s \<in> ready
             then cs[s := (cs ! s)\<lparr>handed := handed (cs ! s) @ [e]\<rparr>] else cs"
  have a: "as_made ?cs" using Cons.prems(1) by (rule as_made_step)
  have l: "c < length ?cs" using Cons.prems(4) by simp
  show ?case
  proof (cases "c = s")
    case True
    with Cons.prems(2) have "c \<notin> set subs" by simp
    with a have "snd (broadcast subs ready e ?cs) ! c = ?cs ! c"
      by (rule broadcast_nth_other)
    also have "?cs ! c =
        (if c \<in> ready then (cs ! c)\<lparr>handed := handed (cs ! c) @ [e]\<rparr> else cs ! c)"
      using True Cons.prems(4) by simp
    finally show ?thesis
      unfolding broadcast_step_as_made [OF Cons.prems(1)] .
  next
    case False
    with Cons.prems have "distinct subs" "c \<in> set subs" by simp_all
    with a l have "snd (broadcast subs ready e ?cs) ! c =
        (if c \<in> ready then (?cs ! c)\<lparr>handed := handed (?cs ! c) @ [e]\<rparr> else ?cs ! c)"
      by (intro Cons.IH)
    also have "?cs ! c = cs ! c" using False by simp
    finally show ?thesis
      unfolding broadcast_step_as_made [OF Cons.prems(1)] .
  qed
qed

lemma listen_closed: "\<not> open socket \<Longrightarrow> listen N socket ins cs = (Returned, cs)"
  by (cases ins) auto

lemma listen_Cons_cases [consumes 1, case_names stopped skipped delivered]:
  assumes "as_made cs"
  obtains
    (stopped) e where "e \<noteq> InRecv" and "listen N socket ((r, ready) # ins) cs = (e, cs)"
  | (skipped) "discarded r" and "decoded N r = None"
      and "listen N socket ((r, ready) # ins) cs = listen N socket ins cs"
  | (delivered) event where "decoded N r = Some event"
      and "listen N socket ((r, ready) # ins) cs =
           listen N socket ins (snd (broadcast (subscribers socket) ready event cs))"
proof (cases "open socket")
  case False
  then have "listen N socket ((r, ready) # ins) cs = (Returned, cs)" by simp
  then show ?thesis using stopped by blast
next
  case op: True
  show ?thesis
  proof (cases r)
    case (Inl err)
    then show ?thesis using op skipped by (simp add: discarded_def decoded_def)
  next
    case (Inr msg)
    show ?thesis
    proof (cases "IsEvent msg")
      case False
      then show ?thesis using op Inr skipped by (simp add: discarded_def decoded_def)
    next
      case True
      show ?thesis
      proof (cases "addDetails N (Event_zero\<lparr>Event.Type := Message.Type msg\<rparr>) (Payload msg)")
        case (Inl a)
        then have "listen N socket ((r, ready) # ins) cs = (Exited a, cs)"
          using op Inr True by simp
        then show ?thesis using stopped by blast
      next
        case res: (Inr event)
        have "fst (broadcast (subscribers socket) ready event cs) = None"
          using assms broadcast_as_made by blast
        then obtain cs' where b: "broadcast (subscribers socket) ready event cs = (None, cs')"
          by (cases "broadcast (subscribers socket) ready event cs") simp
        have "listen N socket ((r, ready) # ins) cs =
            listen N socket ins (snd (broadcast (subscribers socket) ready event cs))"
          using op Inr True res by (simp add: b)
        moreover have "decoded N r = Some event"
          using Inr True res by (simp add: decoded_def)
        ultimately show ?thesis using delivered by blast
      qed
    qed
  qed
qed

lemma listen_as_made:
  "as_made cs \<Longrightarrow>
   as_made (snd (listen N socket ins cs)) \<and> length (snd (listen N socket ins cs)) = length cs"
proof (induction ins arbitrary: cs)
  case Nil
  then show ?case by simp
next
  case (Cons x ins)
  obtain r ready where x: "x = (r, ready)" by (cases x)
  from Cons.prems show ?case
  proof (cases rule: listen_Cons_cases [where N=N and socket=socket and r=r and ready=ready
        and ins=ins])
    case (stopped e)
    show ?thesis unfolding x stopped(2) using Cons.prems by simp
  next
    case skipped
    show ?thesis unfolding x skipped(3) using Cons.prems by (rule Cons.IH)
  next
    case (delivered event)
    let ?cs = "snd (broadcast (subscribers socket) ready event cs)"
    have a: "as_made ?cs" and l: "length ?cs = length cs"
      using Cons.prems broadcast_as_made by blast+
    from a have "as_made (snd (listen N socket ins ?cs)) \<and>
        length (snd (listen N socket ins ?cs)) = length ?cs"
      by (rule Cons.IH)
    then show ?thesis unfolding x delivered(2) l .
  qed
qed

text \<open>
  The positions \<open>ks\<close> of the input whose events the loop has handed to the channel
  \<open>c\<close>.
\<close>

definition positions :: "'n nested \<Rightarrow> IPCSocket \<Rightarrow> nat \<Rightarrow>
    ((string + Message) \<times> nat set) list \<Rightarrow> 'n chan list \<Rightarrow> nat list \<Rightarrow> bool" where
  "positions N socket c ins cs ks \<longleftrightarrow>
     sorted_wrt (<) ks \<and>
     (\<forall>k\<in>set ks. k < length ins \<and> c \<in> snd (ins ! k) \<and> decoded N (fst (ins ! k)) \<noteq> None) \<and>
     map Some (handed (snd (listen N socket ins cs) ! c)) =
       map Some (handed (cs ! c)) @ map (\<lambda>k. decoded N (fst (ins ! k))) ks \<and>
     (fst (listen N socket ins cs) = InRecv \<longrightarrow>
        (\<forall>k<length ins. c \<in> snd (ins ! k) \<and> decoded N (fst (ins ! k)) \<noteq> None \<longrightarrow> k \<in> set ks))"

lemma positions_skip:
  assumes l: "listen N socket ((r, ready) # ins) cs = listen N socket ins cs"
    and n: "decoded N r = None"
    and p: "positions N socket c ins cs ks"
  shows "positions N socket c ((r, ready) # ins) cs (map Suc ks)"
proof -
  let ?ins = "(r, ready) # ins"
  from p have p1: "sorted_wrt (<) ks"
    and p2: "\<forall>k\<in>set ks. k < length ins \<and> c \<in> snd (ins ! k) \<and> decoded N (fst (ins ! k)) \<noteq> None"
    and p3: "map Some (handed (snd (listen N socket ins cs) ! c)) =
       map Some (handed (cs ! c)) @ map (\<lambda>k. decoded N (fst (ins ! k))) ks"
    and p4: "fst (listen N socket ins cs) = InRecv \<longrightarrow>
        (\<forall>k<length ins. c \<in> snd (ins ! k) \<and> decoded N (fst (ins ! k)) \<noteq> None \<longrightarrow> k \<in> set ks)"
    unfolding positions_def by blast+
  have 1: "sorted_wrt (<) (map Suc ks)"
    using p1 by (simp add: sorted_wrt_map)
  have 2: "\<forall>k\<in>set (map Suc ks). k < length ?ins \<and>
      c \<in> snd (?ins ! k) \<and> decoded N (fst (?ins ! k)) \<noteq> None"
    using p2 by simp
  have 3: "map (\<lambda>k. decoded N (fst (?ins ! k))) (map Suc ks) =
      map (\<lambda>k. decoded N (fst (ins ! k))) ks"
    by (simp add: comp_def)
  have 4: "fst (listen N socket ins cs) = InRecv \<longrightarrow> (\<forall>k<length ?ins.
      c \<in> snd (?ins ! k) \<and> decoded N (fst (?ins ! k)) \<noteq> None \<longrightarrow> k \<in> set (map Suc ks))"
  proof (intro allI impI)
    fix k assume i: "fst (listen N socket ins cs) = InRecv"
      and k: "k < length ?ins"
      and q: "c \<in> snd (?ins ! k) \<and> decoded N (fst (?ins ! k)) \<noteq> None"
    show "k \<in> set (map Suc ks)"
    proof (cases k)
      case 0
      with q n show ?thesis by simp
    next
      case (Suc j)
      with k q have "j < length ins" "c \<in> snd (ins ! j) \<and> decoded N (fst (ins ! j)) \<noteq> None"
        by simp_all
      with p4 i have "j \<in> set ks" by blast
      with Suc show ?thesis by simp
    qed
  qed
  show ?thesis
    unfolding positions_def l 3
    using 1 2 p3 4 by (intro conjI)
qed

lemma positions_deliver:
  assumes l: "listen N socket ((r, ready) # ins) cs = listen N socket ins cs'"
    and n: "decoded N r = Some event"
    and h: "handed (cs' ! c) = handed (cs ! c) @ (if c \<in> ready then [event] else [])"
    and p: "positions N socket c ins cs' ks"
  shows "positions N socket c ((r, ready) # ins) cs
           ((if c \<in> ready then [0] else []) @ map Suc ks)"
proof -
  let ?ks = "(if c \<in> ready then [0] else []) @ map Suc ks"
  let ?ins = "(r, ready) # ins"
  from p have p1: "sorted_wrt (<) ks"
    and p2: "\<forall>k\<in>set ks. k < length ins \<and> c \<in> snd (ins ! k) \<and> decoded N (fst (ins ! k)) \<noteq> None"
    and p3: "map Some (handed (snd (listen N socket ins cs') ! c)) =
       map Some (handed (cs' ! c)) @ map (\<lambda>k. decoded N (fst (ins ! k))) ks"
    and p4: "fst (listen N socket ins cs') = InRecv \<longrightarrow>
        (\<forall>k<length ins. c \<in> snd (ins ! k) \<and> decoded N (fst (ins ! k)) \<noteq> None \<longrightarrow> k \<in> set ks)"
    unfolding positions_def by blast+
  have 1: "sorted_wrt (<) ?ks"
    using p1 by (simp add: sorted_wrt_map sorted_wrt_append)
  have 2: "\<forall>k\<in>set ?ks. k < length ?ins \<and> c \<in> snd (?ins ! k) \<and> decoded N (fst (?ins ! k)) \<noteq> None"
    using p2 n by auto
  have 3: "map Some (handed (snd (listen N socket ins cs') ! c)) =
      map Some (handed (cs ! c)) @ map (\<lambda>k. decoded N (fst (?ins ! k))) ?ks"
    unfolding p3 h using n by (simp add: comp_def)
  have 4: "fst (listen N socket ins cs') = InRecv \<longrightarrow> (\<forall>k<length ?ins.
      c \<in> snd (?ins ! k) \<and> decoded N (fst (?ins ! k)) \<noteq> None \<longrightarrow> k \<in> set ?ks)"
  proof (intro allI impI)
    fix k assume i: "fst (listen N socket ins cs') = InRecv"
      and k: "k < length ?ins"
      and q: "c \<in> snd (?ins ! k) \<and> decoded N (fst (?ins ! k)) \<noteq> None"
    show "k \<in> set ?ks"
    proof (cases k)
      case 0
      with q show ?thesis by simp
    next
      case (Suc j)
      with k q have "j < length ins" "c \<in> snd (ins ! j) \<and> decoded N (fst (ins ! j)) \<noteq> None"
        by simp_all
      with p4 i have "j \<in> set ks" by blast
      with Suc show ?thesis by simp
    qed
  qed
  show ?thesis
    unfolding positions_def l
    using 1 2 3 4 by (intro conjI)
qed

lemma listen_positions:
  assumes d: "distinct (subscribers socket)" and m: "c \<in> set (subscribers socket)"
  shows "as_made cs \<Longrightarrow> c < length cs \<Longrightarrow> \<exists>ks. positions N socket c ins cs ks"
proof (induction ins arbitrary: cs)
  case Nil
  have "positions N socket c [] cs []"
    by (simp add: positions_def)
  then show ?case ..
next
  case (Cons x ins)
  obtain r ready where x: "x = (r, ready)" by (cases x)
  from Cons.prems(1) show ?case
  proof (cases rule: listen_Cons_cases [where N=N and socket=socket and r=r and ready=ready
        and ins=ins])
    case (stopped e)
    then have "positions N socket c ((r, ready) # ins) cs []"
      by (simp add: positions_def)
    then show ?thesis unfolding x ..
  next
    case skipped
    from Cons.IH [OF Cons.prems] obtain ks where "positions N socket c ins cs ks" ..
    with skipped(3,2) have "positions N socket c ((r, ready) # ins) cs (map Suc ks)"
      by (rule positions_skip)
    then show ?thesis unfolding x ..
  next
    case (delivered event)
    let ?cs = "snd (broadcast (subscribers socket) ready event cs)"
    have a: "as_made ?cs" and l: "length ?cs = length cs"
      using Cons.prems(1) broadcast_as_made by blast+
    have "?cs ! c = (if c \<in> ready then (cs ! c)\<lparr>handed := handed (cs ! c) @ [event]\<rparr>
        else cs ! c)"
      using Cons.prems(1) d m Cons.prems(2) by (rule broadcast_nth_subscriber)
    then have h: "handed (?cs ! c) = handed (cs ! c) @ (if c \<in> ready then [event] else [])"
      by simp
    have "c < length ?cs" using Cons.prems(2) l by simp
    with a obtain ks where "positions N socket c ins ?cs ks"
      using Cons.IH by blast
    with delivered(2,1) h have "positions N socket c ((r, ready) # ins) cs
        ((if c \<in> ready then [0] else []) @ map Suc ks)"
      by (intro positions_deliver)
    then show ?thesis unfolding x ..
  qed
qed

section \<open>Well-formed states are preserved\<close>

lemma wf_init: "wf init"
  by (simp add: wf_def init_def as_made_def)

lemma wf_AddEventType: "wf w \<Longrightarrow> wf (snd (AddEventType name w))"
  by (auto simp: wf_def AddEventType_def Let_def prefix_def)

lemma index_Some:
  "index xs t = Some x \<longleftrightarrow> 0 \<le> sint t \<and> nat (sint t) < length xs \<and> x = xs ! nat (sint t)"
  by (auto simp: index_def)

lemma distinct_concat_update:
  "distinct (concat (map f ss)) \<Longrightarrow> i < length ss \<Longrightarrow> x \<notin> set (concat (map f ss)) \<Longrightarrow>
   f s' = f (ss ! i) @ [x] \<Longrightarrow> distinct (concat (map f (ss[i := s'])))"
proof (induction ss arbitrary: i)
  case Nil
  then show ?case by simp
next
  case (Cons a ss)
  show ?case
  proof (cases i)
    case 0
    with Cons.prems show ?thesis by auto
  next
    case (Suc j)
    with Cons.prems have "distinct (concat (map f (ss[j := s'])))"
      by (intro Cons.IH) auto
    moreover have "set (concat (map f (ss[j := s']))) \<subseteq> insert x (set (concat (map f ss)))"
      using Cons.prems Suc by (auto dest!: set_update_subset_insert [THEN subsetD])
    ultimately show ?thesis
      using Cons.prems Suc by auto
  qed
qed

lemma wf_Subscribe: 
  assumes "wf w" shows "wf (snd (Subscribe t w))"
proof (cases "fst (Subscribe t w)")
  case (Inl a)
  then show ?thesis using assms
    by (auto simp: Subscribe_def Let_def wf_def as_made_def make_chan_def less_Suc_eq
        split: if_splits option.splits)
next
  case (Inr p)
  show ?thesis
  proof (cases "sint eventmax \<le> sint t \<or> sint t < 0")
    case True
    then show ?thesis using assms by (simp add: Subscribe_def)
  next
    case False
    let ?i = "nat (sint t)"
    let ?ss = "eventSockets w"
    from False Inr have i: "?i < length ?ss"
      by (auto simp: Subscribe_def Let_def index_def split: if_splits option.splits)
    have w': "snd (Subscribe t w) = w\<lparr>chans := chans w @ [make_chan 0],
        eventSockets := ?ss[?i := (?ss ! ?i)\<lparr>subscribers := subscribers (?ss ! ?i) @ [length (chans w)]\<rparr>]\<rparr>"
      using False i by (auto simp: Subscribe_def Let_def index_def)
    have fresh: "length (chans w) \<notin> set (concat (map subscribers ?ss))"
      using assms by (auto simp: wf_def)
    have d: "distinct (concat (map subscribers ?ss))"
      using assms by (simp add: wf_def)
    have "distinct (concat (map subscribers (?ss[?i := (?ss ! ?i)\<lparr>subscribers := subscribers (?ss ! ?i) @ [length (chans w)]\<rparr>])))"
      using d i fresh by (rule distinct_concat_update) simp
    moreover have "\<forall>socket \<in> set (?ss[?i := (?ss ! ?i)\<lparr>subscribers := subscribers (?ss ! ?i) @ [length (chans w)]\<rparr>]).
        \<forall>c \<in> set (subscribers socket). c < Suc (length (chans w))"
    proof
      fix socket assume "socket \<in> set (?ss[?i := (?ss ! ?i)\<lparr>subscribers := subscribers (?ss ! ?i) @ [length (chans w)]\<rparr>])"
      then have "socket \<in> set ?ss \<or> socket = (?ss ! ?i)\<lparr>subscribers := subscribers (?ss ! ?i) @ [length (chans w)]\<rparr>"
        by (auto dest: set_update_subset_insert [THEN subsetD])
      moreover have "?ss ! ?i \<in> set ?ss" using i by simp
      ultimately show "\<forall>c \<in> set (subscribers socket). c < Suc (length (chans w))"
        using assms by (auto simp: wf_def less_Suc_eq)
    qed
    ultimately show ?thesis
      using assms by (auto simp: w' wf_def as_made_def make_chan_def)
  qed
qed

lemma GetIPCSocket_fresh:
  "GetIPCSocket dial = Inr sock \<Longrightarrow> subscribers sock = [] \<and> open sock"
  by (auto simp: GetIPCSocket_def split: option.splits)

lemma subscribe_keeps_subscribers:
  "subscribe reply ps ev sock = Inr (e, sock') \<Longrightarrow>
   subscribers sock' = subscribers sock \<and> open sock' = open sock"
  by (auto simp: subscribe_def Raw_def split: option.splits sum.splits prod.splits if_splits)

lemma wf_append_socket:
  "wf w \<Longrightarrow> subscribers sock = [] \<Longrightarrow>
   wf (w\<lparr>listeners := ls, eventSockets := eventSockets w @ [sock]\<rparr>)"
  by (auto simp: wf_def)

lemma wf_StartEventListener_loop:
  "wf w \<Longrightarrow> wf (snd (StartEventListener_loop transport ev w))"
proof (induction transport ev w rule: StartEventListener_loop.induct)
  case (1 transport ev w)
  show ?case
  proof (cases "sint ev < sint eventmax")
    case False
    then show ?thesis using "1.prems" by (simp add: StartEventListener_loop.simps [of transport ev w])
  next
    case True
    note unroll = StartEventListener_loop.simps [of transport ev w]
    show ?thesis
    proof (cases "GetIPCSocket (fst (transport ev))")
      case (Inl err)
      then show ?thesis using True "1.prems" by (simp add: unroll)
    next
      case (Inr sock)
      show ?thesis
      proof (cases "subscribe (snd (transport ev)) (payloads w) ev sock")
        case (Inl a)
        then show ?thesis using True Inr "1.prems" by (simp add: unroll)
      next
        case res: (Inr p)
        obtain e sock' where p: "p = (e, sock')" by (cases p)
        show ?thesis
        proof (cases e)
          case (Some err)
          then show ?thesis using True Inr res p "1.prems" by (simp add: unroll)
        next
          case None
          have "subscribers sock' = []"
            using GetIPCSocket_fresh [OF Inr] subscribe_keeps_subscribers [of _ _ _ sock e sock']
              res p by simp
          with "1.prems" have "wf (w\<lparr>listeners := listeners w @ [length (eventSockets w)],
              eventSockets := eventSockets w @ [sock']\<rparr>)"
            by (rule wf_append_socket)
          from "1.IH" [OF True Inr res p [symmetric] None this]
          show ?thesis using True Inr res p None by (simp add: unroll)
        qed
      qed
    qed
  qed
qed

lemma wf_StartEventListener: "wf w \<Longrightarrow> wf (snd (StartEventListener transport w))"
  by (simp add: StartEventListener_def wf_StartEventListener_loop)

lemma wf_listen:
  assumes "wf w"
  shows "wf (w\<lparr>chans := snd (listen N socket ins (chans w))\<rparr>)"
proof -
  from assms have a: "prefix payloads_init (payloads w)"
    and b: "distinct (concat (map subscribers (eventSockets w)))"
    and c: "\<forall>socket \<in> set (eventSockets w). \<forall>c \<in> set (subscribers socket). c < length (chans w)"
    and d: "as_made (chans w)"
    unfolding wf_def by blast+
  from d have "as_made (snd (listen N socket ins (chans w)))"
    and "length (snd (listen N socket ins (chans w))) = length (chans w)"
    using listen_as_made by blast+
  with a b c show ?thesis
    unfolding wf_def by simp
qed

lemma wf_subscriber:
  assumes "wf w" and "socket \<in> set (eventSockets w)" and "c \<in> set (subscribers socket)"
  shows "distinct (subscribers socket) \<and> c < length (chans w) \<and> as_made (chans w)"
proof -
  from assms(1) have b: "distinct (concat (map subscribers (eventSockets w)))"
    and c: "\<forall>socket \<in> set (eventSockets w). \<forall>c \<in> set (subscribers socket). c < length (chans w)"
    and d: "as_made (chans w)"
    unfolding wf_def by blast+
  have 1: "distinct (subscribers socket)"
    using b assms(2) by (auto simp: distinct_concat_iff)
  have 2: "c < length (chans w)"
    using c assms(2,3) by blast
  with 1 d show ?thesis by simp
qed

section \<open>The registry: AddEventType\<close>

lemma sint_of_count:
  "n < 2 ^ 31 \<Longrightarrow> sint (word_of_int (int n) :: EventType) = int n"
  by (simp add: signed_of_nat signed_take_bit_int_eq_self)

lemma payloads_after_registrations:
  "payloads (fold (\<lambda>n v. snd (AddEventType n v)) names w) = payloads w @ names"
  by (induction names arbitrary: w) (simp_all add: AddEventType_def Let_def)

text \<open>
  Claim C9, as amended. When the table holds fewer than \<open>2^31\<close> names, \<open>AddEventType\<close>
  appends the name and returns the number of names the table held before the call;
  indexing the table with the returned event type gives the name back, at once and
  after any further registrations.
\<close>

theorem AddEventType_returns_previous_count:
  assumes "length (payloads w) < 2 ^ 31"
    and "AddEventType name w = (t, w')"
  shows "sint t = int (length (payloads w)) \<and>
         payloads w' = payloads w @ [name] \<and>
         index (payloads w') t = Some name \<and>
         (\<forall>names. index (payloads (fold (\<lambda>n v. snd (AddEventType n v)) names w')) t
                    = Some name)"
proof -
  from assms(2) have t: "t = word_of_int (int (length (payloads w)))"
    and w': "payloads w' = payloads w @ [name]"
    by (auto simp: AddEventType_def Let_def)
  have s: "sint t = int (length (payloads w))"
    unfolding t using assms(1) by (rule sint_of_count)
  have "index (payloads w' @ names) t = Some name" for names
    by (simp add: index_def s w' nth_append)
  then show ?thesis
    using s w' by (simp add: payloads_after_registrations)
qed

theorem AddEventType_returns_previous_count_witness:
  "sint (fst (AddEventType ''tick'' started)) = 6 \<and>
   index (payloads (snd (AddEventType ''tick'' started)))
     (fst (AddEventType ''tick'' started)) = Some ''tick'' \<and>
   index (payloads (snd (AddEventType ''shutdown'' (snd (AddEventType ''tick'' started)))))
     (fst (AddEventType ''tick'' started)) = Some ''tick''"
proof -
  have p: "payloads started = payloads_init"
    unfolding started_def by code_simp
  have h: "length (payloads started) < 2 ^ 31"
    by (simp add: p payloads_init_def)
  have e: "AddEventType ''tick'' started =
      (fst (AddEventType ''tick'' started), snd (AddEventType ''tick'' started))"
    by simp
  from AddEventType_returns_previous_count [OF h e]
  have "sint (fst (AddEventType ''tick'' started)) = int (length (payloads started))"
    and "index (payloads (snd (AddEventType ''tick'' started)))
           (fst (AddEventType ''tick'' started)) = Some ''tick''"
    and "index (payloads (fold (\<lambda>n v. snd (AddEventType n v)) [''shutdown'']
           (snd (AddEventType ''tick'' started)))) (fst (AddEventType ''tick'' started))
         = Some ''tick''"
    by blast+
  then show ?thesis by (simp add: p payloads_init_def)
qed

text \<open>
  Claim C9 as stated, without the bound, fails: the returned value is an \<^verbatim>\<open>int32\<close>.
  \<open>crowded\<close> is the state after \<open>2^31 - 6\<close> registrations on \<open>init\<close>; its table
  holds \<open>2^31\<close> names, the next registration returns \<open>-2^31\<close>, and indexing the table
  with that value panics.
\<close>

definition crowded :: "json world" where
  "crowded = fold (\<lambda>n v. snd (AddEventType n v)) (replicate (2 ^ 31 - 6) ''x'') init"

lemma length_payloads_crowded: "length (payloads crowded) = 2 ^ 31"
  unfolding crowded_def payloads_after_registrations
  by (simp add: init_def payloads_init_def)

theorem AddEventType_wraps_at_int32:
  "int (length (payloads crowded)) = 2 ^ 31 \<and>
   sint (fst (AddEventType ''tick'' crowded)) = - (2 ^ 31) \<and>
   sint (fst (AddEventType ''tick'' crowded)) \<noteq> int (length (payloads crowded)) \<and>
   index (payloads (snd (AddEventType ''tick'' crowded))) (fst (AddEventType ''tick'' crowded))
     = None"
proof -
  have l: "int (length (payloads crowded)) = 2 ^ 31"
    by (simp add: length_payloads_crowded)
  have t: "fst (AddEventType ''tick'' crowded) = (word_of_int (2 ^ 31) :: EventType)"
    by (simp add: AddEventType_def Let_def length_payloads_crowded)
  have s: "sint (word_of_int (2 ^ 31) :: EventType) = - (2 ^ 31)"
    by simp
  have i: "index (payloads (snd (AddEventType ''tick'' crowded)))
      (word_of_int (2 ^ 31) :: EventType) = None"
    unfolding index_def s by simp
  from l t s i show ?thesis by simp
qed

section \<open>Subscribe\<close>

text \<open>
  Claim C6. An event type that is negative, or at least the number of names in
  \<^verbatim>\<open>payloads\<close>, makes \<open>Subscribe\<close> return the nil channel with the error
  \<open>SubscribeError "No such event type."\<close> and leave the state as it was: the table
  never holds fewer than the six built-in names, so such a value is not below
  \<open>eventmax\<close>.
\<close>

theorem Subscribe_rejects_unregistered:
  assumes "prefix payloads_init (payloads w)"
    and "sint t < 0 \<or> int (length (payloads w)) \<le> sint t"
  shows "Subscribe t w = (Inr (None, Some (SubscribeError ''No such event type.'')), w)"
proof -
  have "length payloads_init \<le> length (payloads w)"
    using assms(1) by (rule prefix_length_le)
  then have "6 \<le> int (length (payloads w))"
    by (simp add: payloads_init_def)
  with assms(2) show ?thesis
    by (auto simp: Subscribe_def eventmax_def)
qed

theorem Subscribe_rejects_unregistered_witness:
  "prefix payloads_init (payloads started) \<and>
   int (length (payloads started)) \<le> sint (6 :: EventType) \<and>
   Subscribe 6 started = (Inr (None, Some (SubscribeError ''No such event type.'')), started) \<and>
   sint (- 1 :: EventType) < 0 \<and>
   Subscribe (- 1) started = (Inr (None, Some (SubscribeError ''No such event type.'')), started)"
proof -
  have p: "payloads started = payloads_init"
    unfolding started_def by code_simp
  have h: "prefix payloads_init (payloads started)"
    by (simp add: p)
  have a: "int (length (payloads started)) \<le> sint (6 :: EventType)"
    by (simp add: p payloads_init_def)
  have b: "sint (- 1 :: EventType) < 0"
    by simp
  from Subscribe_rejects_unregistered [OF h, of 6] a
    Subscribe_rejects_unregistered [OF h, of "- 1"] b h
  show ?thesis by simp
qed

section \<open>Startup\<close>

text \<open>
  Claim C5. When the number of names in \<^verbatim>\<open>payloads\<close> differs from \<open>eventmax\<close>,
  \<open>StartEventListener\<close> ends the process at its first check: whatever the transport
  would answer, no socket is added to \<open>eventSockets\<close>, no listener is started, and the
  state is the one the call found.
\<close>

theorem StartEventListener_count_mismatch:
  assumes "int (length (payloads w)) \<noteq> sint eventmax"
  shows "StartEventListener transport w =
           (Some (Fatal (PayloadsMismatch (length (payloads w)) (sint eventmax))), w)"
  using assms by (simp add: StartEventListener_def)

theorem StartEventListener_count_mismatch_witness:
  "int (length (payloads (snd (AddEventType ''tick'' (init :: json world))))) = 7 \<and>
   sint eventmax = 6 \<and>
   StartEventListener ok_transport (snd (AddEventType ''tick'' (init :: json world))) =
     (Some (Fatal (PayloadsMismatch 7 6)), snd (AddEventType ''tick'' init)) \<and>
   eventSockets (snd (StartEventListener ok_transport
     (snd (AddEventType ''tick'' (init :: json world))))) = [] \<and>
   listeners (snd (StartEventListener ok_transport
     (snd (AddEventType ''tick'' (init :: json world))))) = []"
proof -
  have n: "int (length (payloads (snd (AddEventType ''tick'' (init :: json world))))) = 7"
    by (simp add: AddEventType_def init_def payloads_init_def)
  have m: "sint eventmax = 6"
    by (simp add: eventmax_def)
  have h: "int (length (payloads (snd (AddEventType ''tick'' (init :: json world)))))
      \<noteq> sint eventmax"
    by (simp add: n m)
  have l: "length (payloads (snd (AddEventType ''tick'' (init :: json world)))) = 7"
    by (simp add: AddEventType_def init_def payloads_init_def)
  from StartEventListener_count_mismatch [OF h, of ok_transport]
  show ?thesis
    by (simp add: n m l) (simp add: AddEventType_def init_def)
qed







section \<open>Sample frames\<close>

text \<open>
  Two window events as i3 sends them, a reply that is not an event, the state after one
  call of \<open>Subscribe\<close> for window events on \<open>started\<close> (the new channel is number 0,
  subscribed to the socket of index 3), and five answers of \<^verbatim>\<open>recv\<close>: the consumer is
  parked on the channel for all but the fourth.
\<close>

definition window_focus :: Message where
  "window_focus =
     \<lparr>Payload = Some (JObject [(''change'', JString ''focus''),
                               (''container'', JObject [(''id'', JNumber ''1'')])]),
      IsEvent = True, Type = I3WindowEvent\<rparr>"

definition window_close :: Message where
  "window_close =
     \<lparr>Payload = Some (JObject [(''change'', JString ''close''),
                               (''container'', JObject [(''id'', JNumber ''2'')])]),
      IsEvent = True, Type = I3WindowEvent\<rparr>"

definition command_reply :: Message where
  "command_reply =
     \<lparr>Payload = Some (JArray [JObject [(''success'', JBool True)]]),
      IsEvent = False, Type = 0\<rparr>"

definition subscribed :: "json world" where
  "subscribed = snd (Subscribe I3WindowEvent started)"

definition window_socket :: IPCSocket where
  "window_socket = eventSockets subscribed ! 3"

definition frames :: "((string + Message) \<times> nat set) list" where
  "frames =
     [(Inr window_focus, {0}), (Inl ''EOF'', {0}), (Inr command_reply, {0}),
      (Inr window_close, {}), (Inr window_focus, {0})]"

definition focus_event :: "json Event" where
  "focus_event =
     \<lparr>Event.Type = I3WindowEvent,
      Details = OfWindowEvent
        \<lparr>WindowEvent.Change = ''focus'', Container = JObject [(''id'', JNumber ''1'')]\<rparr>,
      Event.Change = ''focus''\<rparr>"

section \<open>The channel of a subscriber\<close>

text \<open>
  Claim C10. The channel a successful \<open>Subscribe\<close> returns is the one
  \<^verbatim>\<open>make(chan Event)\<close> makes: capacity 0 and nothing buffered, and it is subscribed to the
  socket of the event type. A send in a \<^verbatim>\<open>select\<close> with a default case is chosen on it
  exactly when a receiver is parked; a broadcast hands it the event when it is ready and
  leaves it as it was otherwise; and it still has capacity 0 and an empty buffer after any
  run of the loop.
\<close>

theorem Subscribe_returns_unbuffered_channel:
  assumes "wf w" and "Subscribe t w = (Inr (Some c, None), w')"
  shows "c < length (chans w') \<and> chans w' ! c = make_chan 0 \<and> cap (chans w' ! c) = 0 \<and>
         c \<in> set (subscribers (eventSockets w' ! nat (sint t))) \<and>
         nb_send waiting event (chans w' ! c) =
           Inr (waiting, if waiting then (make_chan 0)\<lparr>handed := [event]\<rparr> else make_chan 0) \<and>
         fst (broadcast (subscribers (eventSockets w' ! nat (sint t))) ready event (chans w'))
           = None \<and>
         snd (broadcast (subscribers (eventSockets w' ! nat (sint t))) ready event (chans w')) ! c
           = (if c \<in> ready then (make_chan 0)\<lparr>handed := [event]\<rparr> else make_chan 0) \<and>
         cap (snd (listen N (eventSockets w' ! nat (sint t)) ins (chans w')) ! c) = 0 \<and>
         buf (snd (listen N (eventSockets w' ! nat (sint t)) ins (chans w')) ! c) = []"
proof -
  let ?i = "nat (sint t)"
  let ?ss = "eventSockets w"
  from assms(2) have g: "\<not> (sint eventmax \<le> sint t \<or> sint t < 0)"
    by (auto simp: Subscribe_def split: if_splits)
  with assms(2) have i: "?i < length ?ss"
    by (auto simp: Subscribe_def Let_def index_def split: if_splits option.splits)
  from g i have i': "sint t < int (length ?ss)" by linarith
  from assms(2) g i i' have c: "c = length (chans w)"
    and w': "w' = w\<lparr>chans := chans w @ [make_chan 0],
        eventSockets := ?ss[?i := (?ss ! ?i)\<lparr>subscribers := subscribers (?ss ! ?i) @ [length (chans w)]\<rparr>]\<rparr>"
    by (auto simp: Subscribe_def Let_def index_def)
  have wf': "wf w'"
    using wf_Subscribe [OF assms(1), of t] assms(2) by simp
  let ?socket = "eventSockets w' ! ?i"
  have "?i < length (eventSockets w')" using i by (simp add: w')
  then have s: "?socket \<in> set (eventSockets w')" by (rule nth_mem)
  have m: "c \<in> set (subscribers ?socket)" using i by (simp add: w' c)
  have n: "chans w' ! c = make_chan 0" by (simp add: w' c)
  from wf_subscriber [OF wf' s m]
  have d: "distinct (subscribers ?socket)" and l: "c < length (chans w')"
    and a: "as_made (chans w')"
    by simp_all
  have f: "nb_send waiting event (chans w' ! c) =
      Inr (waiting, if waiting then (make_chan 0)\<lparr>handed := [event]\<rparr> else make_chan 0)"
    by (simp add: n nb_send_def make_chan_def)
  have b1: "fst (broadcast (subscribers ?socket) ready event (chans w')) = None"
    using a broadcast_as_made by blast
  have "snd (broadcast (subscribers ?socket) ready event (chans w')) ! c =
      (if c \<in> ready then (chans w' ! c)\<lparr>handed := handed (chans w' ! c) @ [event]\<rparr>
       else chans w' ! c)"
    using a d m l by (rule broadcast_nth_subscriber)
  then have b2: "snd (broadcast (subscribers ?socket) ready event (chans w')) ! c =
      (if c \<in> ready then (make_chan 0)\<lparr>handed := [event]\<rparr> else make_chan 0)"
    by (simp add: n make_chan_def)
  have "as_made (snd (listen N ?socket ins (chans w')))"
    and "length (snd (listen N ?socket ins (chans w'))) = length (chans w')"
    using a listen_as_made by blast+
  with l have p: "cap (snd (listen N ?socket ins (chans w')) ! c) = 0"
    "buf (snd (listen N ?socket ins (chans w')) ! c) = []"
    using as_madeD by fastforce+
  have z: "cap (chans w' ! c) = 0" by (simp add: n make_chan_def)
  from l n z m f b1 b2 p show ?thesis by (intro conjI)
qed

theorem Subscribe_returns_unbuffered_channel_witness:
  "wf started \<and>
   Subscribe I3WindowEvent started = (Inr (Some 0, None), subscribed) \<and>
   chans subscribed ! 0 = make_chan 0 \<and> cap (chans subscribed ! 0) = 0 \<and>
   nb_send True focus_event (chans subscribed ! 0) =
     Inr (True, (make_chan 0)\<lparr>handed := [focus_event]\<rparr>) \<and>
   nb_send False focus_event (chans subscribed ! 0) = Inr (False, make_chan 0) \<and>
   snd (broadcast (subscribers (eventSockets subscribed ! 3)) {0} focus_event
     (chans subscribed)) ! 0 = (make_chan 0)\<lparr>handed := [focus_event]\<rparr> \<and>
   snd (broadcast (subscribers (eventSockets subscribed ! 3)) {} focus_event
     (chans subscribed)) ! 0 = make_chan 0"
proof -
  have h1: "wf started" by code_simp
  have h2: "Subscribe I3WindowEvent started = (Inr (Some 0, None), subscribed)"
    by code_simp
  have i: "nat (sint I3WindowEvent) = 3" by (simp add: I3WindowEvent_def)
  note th = Subscribe_returns_unbuffered_channel [OF h1 h2, unfolded i]
  note t1 = th [of True focus_event "{0}" plain_nested "[]"]
  note t2 = th [of False focus_event "{}" plain_nested "[]"]
  from t1 have a: "chans subscribed ! 0 = make_chan 0" "cap (chans subscribed ! 0) = 0"
    by blast+
  from t1 have a1: "nb_send True focus_event (chans subscribed ! 0) =
      Inr (True, if True then (make_chan 0)\<lparr>handed := [focus_event]\<rparr> else make_chan 0)"
    by blast
  from t1 have a2: "snd (broadcast (subscribers (eventSockets subscribed ! 3)) {0} focus_event
       (chans subscribed)) ! 0 =
       (if 0 \<in> {0::nat} then (make_chan 0)\<lparr>handed := [focus_event]\<rparr> else make_chan 0)"
    by blast
  from t2 have b1: "nb_send False focus_event (chans subscribed ! 0) =
      Inr (False, if False then (make_chan 0)\<lparr>handed := [focus_event]\<rparr> else make_chan 0)"
    by blast
  from t2 have b2: "snd (broadcast (subscribers (eventSockets subscribed ! 3)) {} focus_event
       (chans subscribed)) ! 0 =
       (if 0 \<in> ({}::nat set) then (make_chan 0)\<lparr>handed := [focus_event]\<rparr> else make_chan 0)"
    by blast
  have a1': "nb_send True focus_event (chans subscribed ! 0) =
     Inr (True, (make_chan 0)\<lparr>handed := [focus_event]\<rparr>)"
    unfolding a1 by simp
  have b1': "nb_send False focus_event (chans subscribed ! 0) = Inr (False, make_chan 0)"
    unfolding b1 by simp
  have a2': "snd (broadcast (subscribers (eventSockets subscribed ! 3)) {0} focus_event
       (chans subscribed)) ! 0 = (make_chan 0)\<lparr>handed := [focus_event]\<rparr>"
    unfolding a2 by simp
  have b2': "snd (broadcast (subscribers (eventSockets subscribed ! 3)) {} focus_event
       (chans subscribed)) ! 0 = make_chan 0"
    unfolding b2 by simp
  from h1 h2 a a1' b1' a2' b2' show ?thesis by (intro conjI)
qed

section \<open>Fan-out\<close>



section \<open>Dropped frames\<close>

lemma listen_filter_discarded:
  "listen N socket (filter (\<lambda>(r, ready). \<not> discarded r) ins) cs = listen N socket ins cs"
proof (induction ins arbitrary: cs)
  case Nil
  show ?case by simp
next
  case (Cons x ins)
  obtain r ready where x: "x = (r, ready)" by (cases x)
  show ?case
  proof (cases "open socket")
    case False
    then show ?thesis by (simp add: listen_closed)
  next
    case op: True
    show ?thesis
    proof (cases "discarded r")
      case True
      then have "listen N socket ((r, ready) # ins) cs = listen N socket ins cs"
        using op by (auto simp: discarded_def split: sum.splits)
      then show ?thesis using True x Cons.IH by simp
    next
      case False
      then obtain msg where m: "r = Inr msg" "IsEvent msg"
        by (auto simp: discarded_def split: sum.splits)
      show ?thesis
      proof (cases "addDetails N (Event_zero\<lparr>Event.Type := Message.Type msg\<rparr>) (Payload msg)")
        case (Inl a)
        then show ?thesis using False x m op by simp
      next
        case (Inr event)
        obtain p cs' where b: "broadcast (subscribers socket) ready event cs = (p, cs')"
          by (cases "broadcast (subscribers socket) ready event cs")
        show ?thesis
        proof (cases p)
          case None
          then show ?thesis using False x m op Inr b Cons.IH by simp
        next
          case (Some a)
          then show ?thesis using False x m op Inr b by simp
        qed
      qed
    qed
  qed
qed

lemma listen_skip_discarded:
  "discarded r \<Longrightarrow>
   listen N socket (pre @ (r, ready) # post) cs = listen N socket (pre @ post) cs"
proof -
  assume "discarded r"
  then have "filter (\<lambda>(r, ready). \<not> discarded r) (pre @ (r, ready) # post) =
      filter (\<lambda>(r, ready). \<not> discarded r) (pre @ post)"
    by simp
  then show ?thesis
    using listen_filter_discarded [of N socket "pre @ (r, ready) # post" cs]
      listen_filter_discarded [of N socket "pre @ post" cs]
    by simp
qed

lemma decoded_Some:
  "decoded N r = Some e \<Longrightarrow>
   \<exists>msg. r = Inr msg \<and> IsEvent msg \<and>
     addDetails N (Event_zero\<lparr>Event.Type := Message.Type msg\<rparr>) (Payload msg) = Inr e"
  by (auto simp: decoded_def split: sum.splits if_splits)

lemma listen_handed_events:
  assumes "wf w" and "socket \<in> set (eventSockets w)" and "c \<in> set (subscribers socket)"
  shows "\<exists>es. handed (snd (listen N socket ins (chans w)) ! c) = handed (chans w ! c) @ es \<and>
     (\<forall>e\<in>set es. \<exists>msg ready. (Inr msg, ready) \<in> set ins \<and> IsEvent msg \<and>
        addDetails N (Event_zero\<lparr>Event.Type := Message.Type msg\<rparr>) (Payload msg) = Inr e)"
proof -
  from wf_subscriber [OF assms]
  have d: "distinct (subscribers socket)" and l: "c < length (chans w)"
    and a: "as_made (chans w)"
    by simp_all
  from listen_positions [OF d assms(3) a l, of N ins]
  obtain ks where "positions N socket c ins (chans w) ks" ..
  then have k: "\<forall>k\<in>set ks. k < length ins \<and> decoded N (fst (ins ! k)) \<noteq> None"
    and h: "map Some (handed (snd (listen N socket ins (chans w)) ! c)) =
       map Some (handed (chans w ! c)) @ map (\<lambda>k. decoded N (fst (ins ! k))) ks"
    unfolding positions_def by blast+
  let ?es = "map (\<lambda>k. the (decoded N (fst (ins ! k)))) ks"
  have "map (\<lambda>k. decoded N (fst (ins ! k))) ks = map Some ?es"
    using k by simp
  with h have "map Some (handed (snd (listen N socket ins (chans w)) ! c)) =
       map Some (handed (chans w ! c) @ ?es)"
    by simp
  then have 1: "handed (snd (listen N socket ins (chans w)) ! c) = handed (chans w ! c) @ ?es"
    by (simp only: inj_map_eq_map [OF inj_Some])
  have 2: "\<exists>msg ready. (Inr msg, ready) \<in> set ins \<and> IsEvent msg \<and>
        addDetails N (Event_zero\<lparr>Event.Type := Message.Type msg\<rparr>) (Payload msg) = Inr e"
    if "e \<in> set ?es" for e
  proof -
    from that obtain j where j: "j \<in> set ks" "e = the (decoded N (fst (ins ! j)))"
      by auto
    with k have jl: "j < length ins" and "decoded N (fst (ins ! j)) = Some e"
      by auto
    then obtain msg where m: "fst (ins ! j) = Inr msg" "IsEvent msg"
      "addDetails N (Event_zero\<lparr>Event.Type := Message.Type msg\<rparr>) (Payload msg) = Inr e"
      using decoded_Some by blast
    have "ins ! j \<in> set ins" using jl by simp
    moreover have "ins ! j = (Inr msg, snd (ins ! j))"
      using m(1) by (cases "ins ! j") simp
    ultimately have "(Inr msg, snd (ins ! j)) \<in> set ins" by simp
    with m show ?thesis by blast
  qed
  from 1 2 show ?thesis by blast
qed

text \<open>
  Claim C7. A receive error and a message that is not an event are dropped and the loop
  goes on: the loop ends in the same way and leaves the same channels with and without
  such a frame at any place of its input, and with all of them removed. Every event a
  subscriber of a well-formed state is handed by the loop is the decoded event of an
  event message of the input.
\<close>

theorem listen_discards_non_events:
  assumes "wf w" and "socket \<in> set (eventSockets w)" and "c \<in> set (subscribers socket)"
  shows "(discarded r \<longrightarrow>
            listen N socket (pre @ (r, ready) # post) cs = listen N socket (pre @ post) cs) \<and>
         listen N socket ins cs =
           listen N socket (filter (\<lambda>(r, ready). \<not> discarded r) ins) cs \<and>
         (\<exists>es. handed (snd (listen N socket ins (chans w)) ! c) = handed (chans w ! c) @ es \<and>
            (\<forall>e\<in>set es. \<exists>msg ready. (Inr msg, ready) \<in> set ins \<and> IsEvent msg \<and>
               addDetails N (Event_zero\<lparr>Event.Type := Message.Type msg\<rparr>) (Payload msg)
                 = Inr e))"
  using listen_skip_discarded [of r N socket pre ready post cs]
    listen_filter_discarded [of N socket ins cs]
    listen_handed_events [OF assms, of N ins]
  by (intro conjI impI) simp_all

theorem listen_discards_non_events_witness:
  "wf subscribed \<and> window_socket \<in> set (eventSockets subscribed) \<and>
   0 \<in> set (subscribers window_socket) \<and>
   discarded (Inl ''EOF'') \<and> discarded (Inr command_reply) \<and>
   listen plain_nested window_socket
     [(Inr window_focus, {0}), (Inl ''EOF'', {0}), (Inr command_reply, {0}),
      (Inr window_close, {}), (Inr window_focus, {0})] (chans subscribed) =
   listen plain_nested window_socket
     [(Inr window_focus, {0}), (Inr window_close, {}), (Inr window_focus, {0})]
     (chans subscribed) \<and>
   listen plain_nested window_socket [(Inl ''EOF'', {0}), (Inr command_reply, {0})]
     (chans subscribed) = (InRecv, chans subscribed) \<and>
   handed (snd (listen plain_nested window_socket frames (chans subscribed)) ! 0) =
     [focus_event, focus_event]"
proof -
  have h1: "wf subscribed" by code_simp
  have h2: "window_socket \<in> set (eventSockets subscribed)" by code_simp
  have h3: "0 \<in> set (subscribers window_socket)" by code_simp
  have d1: "discarded (Inl ''EOF'')" by (simp add: discarded_def)
  have d2: "discarded (Inr command_reply)" by (simp add: discarded_def command_reply_def)
  note th = listen_discards_non_events [OF h1 h2 h3]
  from th [of "Inl ''EOF''" plain_nested "[(Inr window_focus, {0})]" "{0}"
      "[(Inr command_reply, {0}), (Inr window_close, {}), (Inr window_focus, {0})]"
      "chans subscribed"] d1
  have a: "listen plain_nested window_socket
     [(Inr window_focus, {0}), (Inl ''EOF'', {0}), (Inr command_reply, {0}),
      (Inr window_close, {}), (Inr window_focus, {0})] (chans subscribed) =
    listen plain_nested window_socket
     [(Inr window_focus, {0}), (Inr command_reply, {0}),
      (Inr window_close, {}), (Inr window_focus, {0})] (chans subscribed)"
    by simp
  from th [of "Inr command_reply" plain_nested "[(Inr window_focus, {0})]" "{0}"
      "[(Inr window_close, {}), (Inr window_focus, {0})]" "chans subscribed"] d2
  have b: "listen plain_nested window_socket
     [(Inr window_focus, {0}), (Inr command_reply, {0}),
      (Inr window_close, {}), (Inr window_focus, {0})] (chans subscribed) =
    listen plain_nested window_socket
     [(Inr window_focus, {0}), (Inr window_close, {}), (Inr window_focus, {0})]
     (chans subscribed)"
    by simp
  have c: "listen plain_nested window_socket [(Inl ''EOF'', {0}), (Inr command_reply, {0})]
     (chans subscribed) = (InRecv, chans subscribed)"
    by code_simp
  have e: "handed (snd (listen plain_nested window_socket frames (chans subscribed)) ! 0) =
     [focus_event, focus_event]"
    by code_simp
  from h1 h2 h3 d1 d2 a [unfolded b] c e show ?thesis by (intro conjI)
qed

section \<open>Decoding\<close>

text \<open>
  What \<^verbatim>\<open>json.Unmarshal\<close> accepts for a \<open>BaseEvent\<close>: \<^verbatim>\<open>null\<close>, and an object in which
  every member that selects the field \<open>Change\<close> is a string or \<^verbatim>\<open>null\<close>; and the
  \<open>Change\<close> it then leaves in the struct: the last such string, or the empty string.
\<close>

definition string_or_null :: "json \<Rightarrow> bool" where
  "string_or_null v = (case v of JString s \<Rightarrow> True | JNull \<Rightarrow> True | _ \<Rightarrow> False)"

definition fits_BaseEvent :: "bytes \<Rightarrow> bool" where
  "fits_BaseEvent raw =
     (case raw of
        Some JNull \<Rightarrow> True
      | Some (JObject kvs) \<Rightarrow>
          list_all (\<lambda>(k, v). equalFold ''Change'' k \<longrightarrow> string_or_null v) kvs
      | _ \<Rightarrow> False)"

definition Change_of :: "bytes \<Rightarrow> string" where
  "Change_of raw =
     (case raw of
        Some (JObject kvs) \<Rightarrow>
          fold (\<lambda>(k, v) s.
            if equalFold ''Change'' k then (case v of JString x \<Rightarrow> x | _ \<Rightarrow> s) else s) kvs ''''
      | _ \<Rightarrow> '''')"

lemma BaseEvent_member_eq:
  "BaseEvent_member k v d =
     (if equalFold ''Change'' k
      then (case v of
              JString s \<Rightarrow> (d\<lparr>BaseEvent.Change := s\<rparr>, None)
            | JNull \<Rightarrow> (d, None)
            | _ \<Rightarrow> (d, Some UnmarshalTypeError))
      else (d, None))"
  by (cases v) (simp_all add: BaseEvent_member_def store_string_def del: equalFold.simps)

lemma object_BaseEvent:
  "object BaseEvent_member kvs d saved =
     (d\<lparr>BaseEvent.Change :=
          fold (\<lambda>(k, v) s.
            if equalFold ''Change'' k then (case v of JString x \<Rightarrow> x | _ \<Rightarrow> s) else s)
            kvs (BaseEvent.Change d)\<rparr>,
      if saved \<noteq> None then saved
      else if list_all (\<lambda>(k, v). equalFold ''Change'' k \<longrightarrow> string_or_null v) kvs then None
      else Some UnmarshalTypeError)"
proof (induction kvs arbitrary: d saved)
  case Nil
  show ?case by simp
next
  case (Cons kv kvs)
  obtain k v where kv: "kv = (k, v)" by (cases kv)
  have s: "object BaseEvent_member ((k, v) # kvs) d saved =
      (case BaseEvent_member k v d of
         (d', e) \<Rightarrow> object BaseEvent_member kvs d' (if saved = None then e else saved))"
    by (rule object.simps)
  show ?case
  proof (cases "equalFold ''Change'' k")
    case False
    then have m: "BaseEvent_member k v d = (d, None)"
      by (simp only: BaseEvent_member_eq if_False)
    show ?thesis
      unfolding kv s m using False
      by (simp add: Cons.IH del: equalFold.simps)
  next
    case True
    show ?thesis
    proof (cases v)
      case (JString x)
      then have m: "BaseEvent_member k v d = (d\<lparr>BaseEvent.Change := x\<rparr>, None)"
        using True by (simp only: BaseEvent_member_eq if_True json.case)
      show ?thesis
        unfolding kv s m using True JString
        by (simp add: Cons.IH string_or_null_def del: equalFold.simps)
    next
      case JNull
      then have m: "BaseEvent_member k v d = (d, None)"
        using True by (simp only: BaseEvent_member_eq if_True json.case)
      show ?thesis
        unfolding kv s m using True JNull
        by (simp add: Cons.IH string_or_null_def del: equalFold.simps)
    next
      case (JBool x)
      then have m: "BaseEvent_member k v d = (d, Some UnmarshalTypeError)"
        using True by (simp only: BaseEvent_member_eq if_True json.case)
      show ?thesis
        unfolding kv s m using True JBool
        by (simp add: Cons.IH string_or_null_def del: equalFold.simps)
    next
      case (JNumber x)
      then have m: "BaseEvent_member k v d = (d, Some UnmarshalTypeError)"
        using True by (simp only: BaseEvent_member_eq if_True json.case)
      show ?thesis
        unfolding kv s m using True JNumber
        by (simp add: Cons.IH string_or_null_def del: equalFold.simps)
    next
      case (JArray x)
      then have m: "BaseEvent_member k v d = (d, Some UnmarshalTypeError)"
        using True by (simp only: BaseEvent_member_eq if_True json.case)
      show ?thesis
        unfolding kv s m using True JArray
        by (simp add: Cons.IH string_or_null_def del: equalFold.simps)
    next
      case (JObject x)
      then have m: "BaseEvent_member k v d = (d, Some UnmarshalTypeError)"
        using True by (simp only: BaseEvent_member_eq if_True json.case)
      show ?thesis
        unfolding kv s m using True JObject
        by (simp add: Cons.IH string_or_null_def del: equalFold.simps)
    qed
  qed
qed

lemma Unmarshal_BaseEvent:
  "json_Unmarshal BaseEvent_member raw BaseEvent_zero =
     (\<lparr>BaseEvent.Change = Change_of raw\<rparr>,
      if fits_BaseEvent raw then None
      else Some (if raw = None then SyntaxError else UnmarshalTypeError))"
proof (cases raw)
  case None
  then show ?thesis
    by (simp add: json_Unmarshal_def fits_BaseEvent_def Change_of_def BaseEvent_zero_def)
next
  case (Some v)
  then show ?thesis
    by (cases v)
      (simp_all add: json_Unmarshal_def fits_BaseEvent_def Change_of_def BaseEvent_zero_def
        object_BaseEvent)
qed

text \<open>
  Claim C3 as stated fails: the check of \<open>err\<close> after the switch covers the default
  branch too. An output event whose \<open>change\<close> is a number, and an event of a type
  registered at runtime whose payload is not JSON, end the process.
\<close>

theorem fallback_decoding_can_fail:
  "I3OutputEvent \<notin> {I3WorkspaceEvent, I3ModeEvent, I3WindowEvent, I3BindingEvent} \<and>
   addDetails plain_nested (Event_zero\<lparr>Event.Type := I3OutputEvent\<rparr>)
     (Some (JObject [(''change'', JNumber ''1'')])) =
     Inl (Fatal (DecodeFailed UnmarshalTypeError)) \<and>
   (6 :: EventType) \<notin> {I3WorkspaceEvent, I3ModeEvent, I3WindowEvent, I3BindingEvent} \<and>
   addDetails plain_nested (Event_zero\<lparr>Event.Type := 6\<rparr>) None =
     Inl (Fatal (DecodeFailed SyntaxError)) \<and>
   listen plain_nested (eventSockets subscribed ! 1)
     [(Inr \<lparr>Payload = Some (JObject [(''change'', JNumber ''1'')]), IsEvent = True,
            Type = I3OutputEvent\<rparr>, {}), (Inr window_focus, {0})] (chans subscribed) =
     (Exited (Fatal (DecodeFailed UnmarshalTypeError)), chans subscribed)"
proof -
  have 1: "I3OutputEvent \<notin> {I3WorkspaceEvent, I3ModeEvent, I3WindowEvent, I3BindingEvent}"
    by (simp add: I3OutputEvent_def I3WorkspaceEvent_def I3ModeEvent_def I3WindowEvent_def
        I3BindingEvent_def)
  have 2: "addDetails plain_nested (Event_zero\<lparr>Event.Type := I3OutputEvent\<rparr>)
     (Some (JObject [(''change'', JNumber ''1'')])) =
     Inl (Fatal (DecodeFailed UnmarshalTypeError))"
    by code_simp
  have 3: "(6 :: EventType) \<notin> {I3WorkspaceEvent, I3ModeEvent, I3WindowEvent, I3BindingEvent}"
    by (simp add: I3WorkspaceEvent_def I3ModeEvent_def I3WindowEvent_def I3BindingEvent_def)
  have 4: "addDetails plain_nested (Event_zero\<lparr>Event.Type := 6\<rparr>) None =
     Inl (Fatal (DecodeFailed SyntaxError))"
    by code_simp
  have 5: "listen plain_nested (eventSockets subscribed ! 1)
     [(Inr \<lparr>Payload = Some (JObject [(''change'', JNumber ''1'')]), IsEvent = True,
            Type = I3OutputEvent\<rparr>, {}), (Inr window_focus, {0})] (chans subscribed) =
     (Exited (Fatal (DecodeFailed UnmarshalTypeError)), chans subscribed)"
    by code_simp
  from 1 2 3 4 5 show ?thesis by (intro conjI)
qed

text \<open>
  Claim C3, as amended. For an event type other than those of workspace, mode, window
  and binding, the payload is decoded into a \<open>BaseEvent\<close>. When the payload is
  \<^verbatim>\<open>null\<close>, or an object whose members named \<open>change\<close> (in any letter case) are
  strings or \<^verbatim>\<open>null\<close>, the call returns the event with that \<open>BaseEvent\<close>, which
  holds the change string and nothing else, and with the same string in the field
  \<open>Change\<close> of the event; the other members are ignored. Any other payload ends the
  process, as it does for the four event types with a struct of their own.
\<close>

theorem addDetails_fallback:
  assumes "Event.Type e \<notin> {I3WorkspaceEvent, I3ModeEvent, I3WindowEvent, I3BindingEvent}"
  shows "(fits_BaseEvent raw \<longrightarrow>
            addDetails N e raw =
              Inr (e\<lparr>Details := OfBaseEvent \<lparr>BaseEvent.Change = Change_of raw\<rparr>,
                    Event.Change := Change_of raw\<rparr>)) \<and>
         (\<not> fits_BaseEvent raw \<longrightarrow>
            addDetails N e raw =
              Inl (Fatal (DecodeFailed (if raw = None then SyntaxError else UnmarshalTypeError))))"
  using assms
  by (simp add: addDetails_def decode_Details_def Unmarshal_BaseEvent)

theorem addDetails_fallback_witness:
  "I3OutputEvent \<notin> {I3WorkspaceEvent, I3ModeEvent, I3WindowEvent, I3BindingEvent} \<and>
   fits_BaseEvent (Some (JObject [(''change'', JString ''unspecified''),
     (''first'', JBool True)])) \<and>
   addDetails plain_nested (Event_zero\<lparr>Event.Type := I3OutputEvent\<rparr>)
     (Some (JObject [(''change'', JString ''unspecified''), (''first'', JBool True)])) =
     Inr \<lparr>Event.Type = I3OutputEvent,
          Details = OfBaseEvent \<lparr>BaseEvent.Change = ''unspecified''\<rparr>,
          Event.Change = ''unspecified''\<rparr> \<and>
   \<not> fits_BaseEvent (Some (JArray [])) \<and>
   addDetails plain_nested (Event_zero\<lparr>Event.Type := I3OutputEvent\<rparr>) (Some (JArray [])) =
     Inl (Fatal (DecodeFailed UnmarshalTypeError))"
proof -
  have t: "Event.Type (Event_zero\<lparr>Event.Type := I3OutputEvent\<rparr> :: json Event)
      \<notin> {I3WorkspaceEvent, I3ModeEvent, I3WindowEvent, I3BindingEvent}"
    by (simp add: I3OutputEvent_def I3WorkspaceEvent_def I3ModeEvent_def I3WindowEvent_def
        I3BindingEvent_def)
  then have t': "I3OutputEvent \<notin> {I3WorkspaceEvent, I3ModeEvent, I3WindowEvent, I3BindingEvent}"
    by simp
  have f: "fits_BaseEvent (Some (JObject [(''change'', JString ''unspecified''),
     (''first'', JBool True)]))"
    by code_simp
  have c: "Change_of (Some (JObject [(''change'', JString ''unspecified''),
     (''first'', JBool True)])) = ''unspecified''"
    by code_simp
  have g: "\<not> fits_BaseEvent (Some (JArray []))"
    by (simp add: fits_BaseEvent_def)
  from addDetails_fallback [OF t, of "Some (JObject [(''change'', JString ''unspecified''),
     (''first'', JBool True)])" plain_nested] f
  have a: "addDetails plain_nested (Event_zero\<lparr>Event.Type := I3OutputEvent\<rparr>)
     (Some (JObject [(''change'', JString ''unspecified''), (''first'', JBool True)])) =
     Inr \<lparr>Event.Type = I3OutputEvent,
          Details = OfBaseEvent \<lparr>BaseEvent.Change = ''unspecified''\<rparr>,
          Event.Change = ''unspecified''\<rparr>"
    by (simp add: c Event_zero_def)
  from addDetails_fallback [OF t, of "Some (JArray [])" plain_nested] g
  have b: "addDetails plain_nested (Event_zero\<lparr>Event.Type := I3OutputEvent\<rparr>)
     (Some (JArray [])) = Inl (Fatal (DecodeFailed UnmarshalTypeError))"
    by simp
  from t' f a g b show ?thesis by (intro conjI)
qed












section \<open>The subscribe handshake\<close>

lemma object_subscribeReply_error:
  "snd (object subscribeReply_member kvs d saved) = saved \<or>
   snd (object subscribeReply_member kvs d saved) = Some UnmarshalTypeError"
proof (induction kvs arbitrary: d saved)
  case Nil
  show ?case by simp
next
  case (Cons kv kvs)
  obtain k v where kv: "kv = (k, v)" by (cases kv)
  obtain d' e where m: "subscribeReply_member k v d = (d', e)"
    by (cases "subscribeReply_member k v d")
  have e: "e = None \<or> e = Some UnmarshalTypeError"
    using m
    by (cases v)
      (auto simp: subscribeReply_member_def store_bool_def split: if_splits
        simp del: equalFold.simps)
  have s: "object subscribeReply_member (kv # kvs) d saved =
      object subscribeReply_member kvs d' (if saved = None then e else saved)"
    unfolding kv by (simp add: m)
  show ?case
    unfolding s
    using Cons.IH [of d' "if saved = None then e else saved"] e
    by (cases saved) auto
qed

lemma Unmarshal_subscribeReply_error:
  "json_Unmarshal subscribeReply_member raw d = (r, Some e) \<Longrightarrow>
   e = SyntaxError \<or> e = UnmarshalTypeError"
proof (cases raw)
  case None
  then show "json_Unmarshal subscribeReply_member raw d = (r, Some e) \<Longrightarrow> ?thesis"
    by (auto simp: json_Unmarshal_def)
next
  case (Some v)
  assume a: "json_Unmarshal subscribeReply_member raw d = (r, Some e)"
  show ?thesis
  proof (cases v)
    case (JObject kvs)
    with a Some have "snd (object subscribeReply_member kvs d None) = Some e"
      by (simp add: json_Unmarshal_def)
    with object_subscribeReply_error [of kvs d None] show ?thesis by auto
  qed (use a Some in \<open>auto simp: json_Unmarshal_def\<close>)
qed

lemma Unmarshal_success_member:
  "json_Unmarshal subscribeReply_member (Some (JObject [(''success'', JBool b)]))
     subscribeReply_zero = (\<lparr>Success = b\<rparr>, None)"
  by (simp add: json_Unmarshal_def subscribeReply_member_def store_bool_def
      subscribeReply_zero_def match_rune_def letter_fold_def)

text \<open>
  Claim C8. For a registered event type with the name \<open>name\<close>, \<open>subscribe\<close> hands to
  \<^verbatim>\<open>Raw\<close> one request: the subscribe command with the body \<^verbatim>\<open>["name"]\<close>. It returns
  the error \<open>SubscribeError "Could not subscribe."\<close> exactly when the transport answers
  and \<^verbatim>\<open>json.Unmarshal\<close> decodes the answer into a \<open>subscribeReply\<close> without an
  error and with \<open>Success\<close> false; it returns no error exactly when the answer decodes
  with \<open>Success\<close> true. In particular the reply \<^verbatim>\<open>{"success":b}\<close> gives no error for
  \<open>b\<close> true and the \<open>SubscribeError\<close> for \<open>b\<close> false.
\<close>

theorem subscribe_handshake:
  assumes "index ps eventType = Some name"
  shows \<open>\<exists>err. subscribe reply ps eventType socket =
            Inr (err, socket\<lparr>requests := requests socket @
                   [(I3Subscribe, ''["'' @ name @ ''"]'')]\<rparr>) \<and>
          ((\<exists>m. err = Some (SubscribeError m)) \<longleftrightarrow>
             (\<exists>jsonReply r. reply = Inr jsonReply \<and>
                json_Unmarshal subscribeReply_member jsonReply subscribeReply_zero = (r, None) \<and>
                \<not> Success r)) \<and>
          (err = None \<longleftrightarrow>
             (\<exists>jsonReply r. reply = Inr jsonReply \<and>
                json_Unmarshal subscribeReply_member jsonReply subscribeReply_zero = (r, None) \<and>
                Success r)) \<and>
          (\<forall>m. err = Some (SubscribeError m) \<longrightarrow> m = ''Could not subscribe.'') \<and>
          (\<forall>b. reply = Inr (Some (JObject [(''success'', JBool b)])) \<longrightarrow>
             err = (if b then None else Some (SubscribeError ''Could not subscribe.'')))\<close>
proof (cases reply)
  case (Inl m)
  then have \<open>subscribe reply ps eventType socket =
      Inr (Some (TransportError m), socket\<lparr>requests := requests socket @
                   [(I3Subscribe, ''["'' @ name @ ''"]'')]\<rparr>)\<close>
    using assms by (simp add: subscribe_def Raw_def)
  then show ?thesis using Inl by simp
next
  case (Inr jsonReply)
  obtain r e where u: "json_Unmarshal subscribeReply_member jsonReply subscribeReply_zero = (r, e)"
    by (cases "json_Unmarshal subscribeReply_member jsonReply subscribeReply_zero")
  show ?thesis
  proof (cases e)
    case (Some x)
    then have x: "x = SyntaxError \<or> x = UnmarshalTypeError"
      using u Unmarshal_subscribeReply_error by blast
    have \<open>subscribe reply ps eventType socket =
        Inr (Some x, socket\<lparr>requests := requests socket @
                   [(I3Subscribe, ''["'' @ name @ ''"]'')]\<rparr>)\<close>
      using assms Inr u Some by (simp add: subscribe_def Raw_def)
    moreover have "jsonReply \<noteq> Some (JObject [(''success'', JBool b)])" for b
      using u Some Unmarshal_success_member [of b] by auto
    ultimately show ?thesis using Inr u Some x by auto
  next
    case None
    have s: \<open>subscribe reply ps eventType socket =
        Inr (if \<not> Success r then Some (SubscribeError ''Could not subscribe.'') else None,
             socket\<lparr>requests := requests socket @
                   [(I3Subscribe, ''["'' @ name @ ''"]'')]\<rparr>)\<close>
      using assms Inr u None by (simp add: subscribe_def Raw_def)
    have b: "Success r = b" if "jsonReply = Some (JObject [(''success'', JBool b)])" for b
      using that u Unmarshal_success_member [of b] by auto
    show ?thesis
    proof (cases "Success r")
      case True
      with s Inr u None b show ?thesis by auto
    next
      case False
      with s Inr u None b show ?thesis by auto
    qed
  qed
qed

theorem subscribe_handshake_witness:
  \<open>index payloads_init I3WindowEvent = Some ''window'' \<and>
   subscribe (Inr (Some (JObject [(''success'', JBool True)]))) payloads_init I3WindowEvent
     \<lparr>open = True, subscribers = [], requests = []\<rparr> =
     Inr (None, \<lparr>open = True, subscribers = [],
                 requests = [(I3Subscribe, ''["window"]'')]\<rparr>) \<and>
   subscribe (Inr (Some (JObject [(''success'', JBool False)]))) payloads_init I3WindowEvent
     \<lparr>open = True, subscribers = [], requests = []\<rparr> =
     Inr (Some (SubscribeError ''Could not subscribe.''),
          \<lparr>open = True, subscribers = [], requests = [(I3Subscribe, ''["window"]'')]\<rparr>) \<and>
   subscribe (Inr None) payloads_init I3WindowEvent
     \<lparr>open = True, subscribers = [], requests = []\<rparr> =
     Inr (Some SyntaxError,
          \<lparr>open = True, subscribers = [], requests = [(I3Subscribe, ''["window"]'')]\<rparr>) \<and>
   subscribe (Inl ''broken pipe'') payloads_init I3WindowEvent
     \<lparr>open = True, subscribers = [], requests = []\<rparr> =
     Inr (Some (TransportError ''broken pipe''),
          \<lparr>open = True, subscribers = [], requests = [(I3Subscribe, ''["window"]'')]\<rparr>)\<close>
proof -
  let ?s = "\<lparr>open = True, subscribers = [], requests = []\<rparr>"
  have h: "index payloads_init I3WindowEvent = Some ''window''" by code_simp
  from subscribe_handshake [OF h, of "Inr (Some (JObject [(''success'', JBool True)]))" ?s]
  have a: \<open>subscribe (Inr (Some (JObject [(''success'', JBool True)]))) payloads_init
      I3WindowEvent ?s =
     Inr (None, \<lparr>open = True, subscribers = [],
                 requests = [(I3Subscribe, ''["window"]'')]\<rparr>)\<close>
    by auto
  from subscribe_handshake [OF h, of "Inr (Some (JObject [(''success'', JBool False)]))" ?s]
  have b: \<open>subscribe (Inr (Some (JObject [(''success'', JBool False)]))) payloads_init
      I3WindowEvent ?s =
     Inr (Some (SubscribeError ''Could not subscribe.''),
          \<lparr>open = True, subscribers = [], requests = [(I3Subscribe, ''["window"]'')]\<rparr>)\<close>
    by auto
  have c: \<open>subscribe (Inr None) payloads_init I3WindowEvent ?s =
     Inr (Some SyntaxError,
          \<lparr>open = True, subscribers = [], requests = [(I3Subscribe, ''["window"]'')]\<rparr>)\<close>
    by code_simp
  have d: \<open>subscribe (Inl ''broken pipe'') payloads_init I3WindowEvent ?s =
     Inr (Some (TransportError ''broken pipe''),
          \<lparr>open = True, subscribers = [], requests = [(I3Subscribe, ''["window"]'')]\<rparr>)\<close>
    by code_simp
  from h a b c d show ?thesis by (intro conjI)
qed

end
